theory Spec2Isabelle
  imports Complex_Main "HOL-Library.Multiset"
begin

section \<open>Order utilities of the relay: ranking, pinning and signature strings\<close>

text \<open>
  A shallow embedding of \<^verbatim>\<open>src/utils/order_utils.ts\<close>. The definitions follow the
  TypeScript function by function and keep its names.
\<close>

subsection \<open>BigNumber values\<close>

text \<open>
  The amounts and the expiry of an order are \<^verbatim>\<open>BigNumber\<close> objects (bignumber.js, as
  configured and re-exported by \<^verbatim>\<open>@0x/utils\<close>). A finite BigNumber is a decimal:
  \<open>Finite c d\<close> stands for \<open>c / 10 ^ d\<close>. The class also has the two infinities and NaN,
  which a division by zero produces.
\<close>

datatype bignum = Finite int nat | PosInfinity | NegInfinity | NaN

text \<open>
  \<^verbatim>\<open>x.div(y)\<close> does not return the exact quotient: it returns the quotient rounded to
  \<^verbatim>\<open>DECIMAL_PLACES\<close> decimal places in rounding mode \<^verbatim>\<open>ROUND_HALF_UP\<close> (to the nearest
  neighbour, a tie away from zero). \<^verbatim>\<open>DECIMAL_PLACES\<close> is a setting of the class, made
  outside this file (bignumber.js ships with 20, \<^verbatim>\<open>@0x/utils\<close> sets 78); it is the
  parameter \<open>dp\<close> of every function below that divides. The operands here are the integer
  amounts of an order. A non-zero amount divided by zero is an infinity with the sign of the
  amount, zero divided by zero is NaN.
\<close>

definition roundedQuotient :: "nat \<Rightarrow> int \<Rightarrow> int \<Rightarrow> int" where
  \<comment> \<open>\<open>x / y\<close> in units of \<open>10 ^ - dp\<close>, to the nearest unit, a tie away from zero\<close>
  "roundedQuotient dp x y = sgn x * sgn y * ((2 * \<bar>x\<bar> * 10 ^ dp + \<bar>y\<bar>) div (2 * \<bar>y\<bar>))"

definition bignumber_div :: "nat \<Rightarrow> int \<Rightarrow> int \<Rightarrow> bignum" where
  "bignumber_div dp x y =
     (if y = 0 then (if x = 0 then NaN else if 0 < x then PosInfinity else NegInfinity)
      else Finite (roundedQuotient dp x y) dp)"

text \<open>\<^verbatim>\<open>x.isEqualTo(y)\<close>: equality of the values; false as soon as one side is NaN.\<close>

fun isEqualTo :: "bignum \<Rightarrow> bignum \<Rightarrow> bool" where
  "isEqualTo (Finite c d) (Finite c' d') = (c * 10 ^ d' = c' * 10 ^ d)"
| "isEqualTo PosInfinity PosInfinity = True"
| "isEqualTo NegInfinity NegInfinity = True"
| "isEqualTo _ _ = False"

text \<open>
  \<^verbatim>\<open>x.comparedTo(y)\<close>: 1, -1 or 0 as \<open>x\<close> is greater than, less than or equal to \<open>y\<close>,
  and \<^verbatim>\<open>null\<close> (here \<open>None\<close>) when one side is NaN.
\<close>

fun comparedTo :: "bignum \<Rightarrow> bignum \<Rightarrow> int option" where
  "comparedTo NaN _ = None"
| "comparedTo _ NaN = None"
| "comparedTo (Finite c d) (Finite c' d') =
     Some (if c * 10 ^ d' < c' * 10 ^ d then - 1 else if c * 10 ^ d' = c' * 10 ^ d then 0 else 1)"
| "comparedTo PosInfinity PosInfinity = Some 0"
| "comparedTo NegInfinity NegInfinity = Some 0"
| "comparedTo PosInfinity _ = Some 1"
| "comparedTo _ PosInfinity = Some (- 1)"
| "comparedTo NegInfinity _ = Some (- 1)"
| "comparedTo _ NegInfinity = Some 1"

subsection \<open>Orders\<close>

record Signature =
  signatureType :: int
  r :: string
  s :: string
  v :: int

text \<open>The fields of a signed limit order, as \<^verbatim>\<open>deserializeOrder\<close> fills them.\<close>

record SignedLimitOrder =
  signature :: Signature
  sender :: string
  maker :: string
  taker :: string
  takerTokenFeeAmount :: int
  makerAmount :: int
  takerAmount :: int
  makerToken :: string
  takerToken :: string
  salt :: int
  verifyingContract :: string
  feeRecipient :: string
  expiry :: int
  chainId :: int
  pool :: string

subsection \<open>The comparators\<close>

definition compareOrderByFeeRatio :: "nat \<Rightarrow> SignedLimitOrder \<Rightarrow> SignedLimitOrder \<Rightarrow> int option" where
  "compareOrderByFeeRatio dp orderA orderB =
     (let orderAFeePrice = bignumber_div dp (takerTokenFeeAmount orderA) (takerAmount orderA);
          orderBFeePrice = bignumber_div dp (takerTokenFeeAmount orderB) (takerAmount orderB)
      in if \<not> isEqualTo orderAFeePrice orderBFeePrice
         then comparedTo orderBFeePrice orderAFeePrice
         else comparedTo (Finite (expiry orderA) 0) (Finite (expiry orderB) 0))"

definition compareAskOrder :: "nat \<Rightarrow> SignedLimitOrder \<Rightarrow> SignedLimitOrder \<Rightarrow> int option" where
  "compareAskOrder dp orderA orderB =
     (let orderAPrice = bignumber_div dp (takerAmount orderA) (makerAmount orderA);
          orderBPrice = bignumber_div dp (takerAmount orderB) (makerAmount orderB)
      in if \<not> isEqualTo orderAPrice orderBPrice
         then comparedTo orderAPrice orderBPrice
         else compareOrderByFeeRatio dp orderA orderB)"

definition compareBidOrder :: "nat \<Rightarrow> SignedLimitOrder \<Rightarrow> SignedLimitOrder \<Rightarrow> int option" where
  "compareBidOrder dp orderA orderB =
     (let orderAPrice = bignumber_div dp (makerAmount orderA) (takerAmount orderA);
          orderBPrice = bignumber_div dp (makerAmount orderB) (takerAmount orderB)
      in if \<not> isEqualTo orderAPrice orderBPrice
         then comparedTo orderBPrice orderAPrice
         else compareOrderByFeeRatio dp orderA orderB)"

subsection \<open>Signature strings\<close>

text \<open>
  \<^verbatim>\<open>signatureType\<close> and \<^verbatim>\<open>v\<close> are JavaScript numbers, that is, doubles. The model covers
  the integer-valued ones and writes them as \<open>int\<close>; an integer is such a number exactly
  when rounding it to a double leaves it as it is (\<open>isDouble\<close>): every integer of magnitude
  up to \<open>2 ^ 53\<close>, and beyond that only those with at most 53 significant bits.
  \<open>roundToDouble\<close> rounds a natural number to the nearest double, a tie to the one with the
  even significand; from \<open>2 ^ 1024 - 2 ^ 970\<close> on the result is Infinity (here \<open>None\<close>).
\<close>

fun bitLength :: "nat \<Rightarrow> nat" where
  "bitLength n = (if n = 0 then 0 else Suc (bitLength (n div 2)))"

declare bitLength.simps [simp del]

definition roundToDouble :: "nat \<Rightarrow> nat option" where
  "roundToDouble m =
     (if m < 2 ^ 53 then Some m
      else (let e = bitLength m - 53;
                q = m div 2 ^ e;
                rest = m mod 2 ^ e;
                q' = (if 2 ^ e < 2 * rest \<or> (2 * rest = 2 ^ e \<and> odd q) then q + 1 else q)
            in if q' * 2 ^ e < 2 ^ 1024 then Some (q' * 2 ^ e) else None))"

definition isDouble :: "int \<Rightarrow> bool" where
  "isDouble n \<longleftrightarrow> roundToDouble (nat \<bar>n\<bar>) = Some (nat \<bar>n\<bar>)"

text \<open>
  \<^verbatim>\<open>[signatureType, r, s, v].join(',')\<close> turns each number into a string the way
  \<^verbatim>\<open>Number.prototype.toString\<close> does. The digits printed are those of the decimal with the
  fewest significant digits that reads back as the same double, the nearest one to the
  number if there are several, the one with the even last digit if two are as near
  (\<^verbatim>\<open>String(2 ** 60)\<close> is \<^verbatim>\<open>"1152921504606847000"\<close>, where \<open>2 ^ 60\<close> ends in \<open>846976\<close>). They
  are printed plainly while that decimal is below \<open>10 ^ 21\<close>, and in exponent notation from
  there on (\<^verbatim>\<open>String(1e21)\<close> is \<^verbatim>\<open>"1e+21"\<close>).
\<close>

definition digitChar :: "nat \<Rightarrow> char" where
  "digitChar d = ''0123456789'' ! (d mod 10)"

fun decimal :: "nat \<Rightarrow> string" where
  "decimal n = (if n < 10 then [digitChar n] else decimal (n div 10) @ [digitChar (n mod 10)])"

declare decimal.simps [simp del]

definition nearestDecimals :: "nat \<Rightarrow> nat \<Rightarrow> nat list" where
  "nearestDecimals m k =
     (let p = 10 ^ (length (decimal m) - k); q = m div p; lo = q * p; hi = lo + p
      in if m - lo < hi - m \<or> (m - lo = hi - m \<and> even q) then [lo, hi] else [hi, lo])"

definition shortestDecimal :: "nat \<Rightarrow> nat" where
  "shortestDecimal m =
     (case List.find (\<lambda>w. roundToDouble w = Some m)
             (concat (map (nearestDecimals m) [1..<length (decimal m)])) of
        Some w \<Rightarrow> w
      | None \<Rightarrow> m)"

definition stripTrailingZeros :: "string \<Rightarrow> string" where
  "stripTrailingZeros ds = rev (dropWhile (\<lambda>c. c = CHR ''0'') (rev ds))"

definition exponential :: "nat \<Rightarrow> string" where
  "exponential n =
     (let ds = decimal n; fraction = stripTrailingZeros (tl ds)
      in hd ds # (if fraction = [] then [] else CHR ''.'' # fraction)
           @ ''e+'' @ decimal (length ds - 1))"

definition number_toString :: "int \<Rightarrow> string" where
  "number_toString n =
     (if n < 0 then ''-'' else []) @
     (let w = shortestDecimal (nat \<bar>n\<bar>)
      in if w < 10 ^ 21 then decimal w else exponential w)"

definition join_comma :: "string list \<Rightarrow> string" where
  "join_comma parts = (case parts of [] \<Rightarrow> [] | f # fs \<Rightarrow> f @ concat (map (\<lambda>g. CHR '','' # g) fs))"

definition serializeSignature :: "Signature \<Rightarrow> string" where
  "serializeSignature sig =
     join_comma [number_toString (signatureType sig), r sig, s sig, number_toString (v sig)]"

text \<open>
  \<^verbatim>\<open>str.split(',')\<close>: the fields between the commas; at least one field, possibly empty.
\<close>

fun split_comma :: "string \<Rightarrow> string list" where
  "split_comma [] = [[]]"
| "split_comma (c # cs) =
     (if c = CHR '','' then [] # split_comma cs
      else (case split_comma cs of [] \<Rightarrow> [[c]] | f # fs \<Rightarrow> (c # f) # fs))"

text \<open>
  \<^verbatim>\<open>parseInt(str, 10)\<close>: leading white space is skipped (here the ASCII white space: tab,
  line feed, vertical tab, form feed, carriage return, space), then an optional sign, then
  the longest run of decimal digits is read and the rest of the string ignored. The result
  is the double nearest to the integer read, an infinity when that integer is beyond the
  doubles. No digit at all gives NaN, and so does \<^verbatim>\<open>undefined\<close>, the value of a field that
  the split did not produce.
\<close>

definition isWhiteSpace :: "char \<Rightarrow> bool" where
  "isWhiteSpace c \<longleftrightarrow> of_char c \<in> {9, 10, 11, 12, 13, 32 :: nat}"

definition isDigit :: "char \<Rightarrow> bool" where
  "isDigit c \<longleftrightarrow> (of_char CHR ''0'' :: nat) \<le> of_char c \<and> (of_char c :: nat) \<le> of_char CHR ''9''"

definition digitsValue :: "string \<Rightarrow> nat" where
  "digitsValue ds = foldl (\<lambda>acc c. 10 * acc + (of_char c - of_char CHR ''0'')) 0 ds"

datatype jsnumber = JsInt int | JsNaN | JsInfinity | JsNegInfinity

definition parseInt10 :: "string option \<Rightarrow> jsnumber" where
  "parseInt10 arg =
     (case arg of
        None \<Rightarrow> JsNaN
      | Some str \<Rightarrow>
          (let trimmed = dropWhile isWhiteSpace str;
               negative = (trimmed \<noteq> [] \<and> hd trimmed = CHR ''-'');
               unsigned = (if trimmed \<noteq> [] \<and> hd trimmed \<in> {CHR ''-'', CHR ''+''} then tl trimmed else trimmed);
               ds = takeWhile isDigit unsigned
           in if ds = [] then JsNaN
              else (case roundToDouble (digitsValue ds) of
                      None \<Rightarrow> if negative then JsNegInfinity else JsInfinity
                    | Some d \<Rightarrow> JsInt (if negative then - int d else int d))))"

text \<open>
  The assertions of \<^verbatim>\<open>@0x/assert\<close> throw; \<^verbatim>\<open>isNumber\<close> accepts the finite numbers only
  (not NaN, not an infinity), \<^verbatim>\<open>isString\<close> refuses \<^verbatim>\<open>undefined\<close>. The error names the
  variable.
\<close>

datatype assertError = NotANumber string | NotAString string

definition arrayItem :: "string list \<Rightarrow> nat \<Rightarrow> string option" where
  \<comment> \<open>array destructuring: a position beyond the array is \<^verbatim>\<open>undefined\<close>\<close>
  "arrayItem parts i = (if i < length parts then Some (parts ! i) else None)"

definition deserializeSignature :: "string \<Rightarrow> assertError + Signature" where
  "deserializeSignature signatureStr =
     (let parts = split_comma signatureStr;
          signatureTypeStr = arrayItem parts 0;
          rField = arrayItem parts 1;
          sField = arrayItem parts 2;
          vStr = arrayItem parts 3
      in case parseInt10 signatureTypeStr of
           JsInt signatureTypeNum \<Rightarrow>
             (case parseInt10 vStr of
                JsInt vNum \<Rightarrow>
                  (case rField of
                     None \<Rightarrow> Inl (NotAString ''signatureR'')
                   | Some rStr \<Rightarrow>
                  (case sField of
                     None \<Rightarrow> Inl (NotAString ''signatureS'')
                   | Some sStr \<Rightarrow>
                       Inr \<lparr>signatureType = signatureTypeNum, r = rStr, s = sStr, v = vNum\<rparr>))
              | _ \<Rightarrow> Inl (NotANumber ''signatureV''))
         | _ \<Rightarrow> Inl (NotANumber ''signatureType''))"

subsection \<open>Pinning\<close>

record RawPool =
  pool_id :: string
  maker_addresses :: "string list"

record PinResult =
  pin :: "SignedLimitOrder list"
  doNotPin :: "SignedLimitOrder list"

text \<open>
  \<^verbatim>\<open>splitOrdersByPinningAsync\<close>, from the point where \<^verbatim>\<open>await getPoolsAsync(connection)\<close>
  has settled. Its outcome is an argument: \<open>Inl error\<close> when it threw, \<open>Inr None\<close> when
  it gave \<^verbatim>\<open>null\<close> or \<^verbatim>\<open>undefined\<close>, \<open>Inr (Some pools)\<close> otherwise. The two configured
  lists \<^verbatim>\<open>PINNED_MM_ADDRESSES\<close> and \<^verbatim>\<open>PINNED_POOL_IDS\<close> are arguments too. The function
  returns the warnings it logged with the result; it has no path that throws, which is why
  it only ever returns \<open>Inr\<close>.
\<close>

definition collectMakerAddresses :: "string list \<Rightarrow> string list \<Rightarrow> RawPool list \<Rightarrow> string list" where
  "collectMakerAddresses PINNED_MM_ADDRESSES PINNED_POOL_IDS currentPools =
     foldl (\<lambda>makerAddresses poolStats.
              if pool_id poolStats \<notin> set PINNED_POOL_IDS then makerAddresses
              else makerAddresses @ maker_addresses poolStats)
       PINNED_MM_ADDRESSES currentPools"

definition pushOrder :: "string list \<Rightarrow> PinResult \<Rightarrow> SignedLimitOrder \<Rightarrow> PinResult" where
  "pushOrder makerAddresses pinResult signedOrder =
     (if maker signedOrder \<in> set makerAddresses
      then pinResult\<lparr>pin := pin pinResult @ [signedOrder]\<rparr>
      else pinResult\<lparr>doNotPin := doNotPin pinResult @ [signedOrder]\<rparr>)"

definition splitOrdersByPinningAsync ::
  "string list \<Rightarrow> string list \<Rightarrow> string + RawPool list option \<Rightarrow> SignedLimitOrder list
     \<Rightarrow> string + string list \<times> PinResult" where
  "splitOrdersByPinningAsync PINNED_MM_ADDRESSES PINNED_POOL_IDS poolsOutcome signedOrders =
     (let (currentPools, warnings) =
            (case poolsOutcome of
               Inl error \<Rightarrow> ([], [''stakingPoolsQuery threw an error: '' @ error])
             | Inr None \<Rightarrow> ([], [])
             | Inr (Some pools) \<Rightarrow> (pools, []));
          makerAddresses = collectMakerAddresses PINNED_MM_ADDRESSES PINNED_POOL_IDS currentPools;
          pinResult = foldl (pushOrder makerAddresses) \<lparr>pin = [], doNotPin = []\<rparr> signedOrders
      in Inr (warnings, pinResult))"

text \<open>The pools a settled \<^verbatim>\<open>getPoolsAsync\<close> contributes: none unless it returned some.\<close>

definition fetchedPools :: "string + RawPool list option \<Rightarrow> RawPool list" where
  "fetchedPools poolsOutcome = (case poolsOutcome of Inr (Some pools) \<Rightarrow> pools | _ \<Rightarrow> [])"

text \<open>
  The warnings that a call logs: one when \<^verbatim>\<open>getPoolsAsync\<close> threw, none otherwise.
\<close>

definition loggedWarnings :: "string + RawPool list option \<Rightarrow> string list" where
  "loggedWarnings poolsOutcome =
     (case poolsOutcome of Inl error \<Rightarrow> [''stakingPoolsQuery threw an error: '' @ error] | Inr _ \<Rightarrow> [])"

subsection \<open>The pool cache\<close>

text \<open>
  Modelled from the spec: the result cache of \<^verbatim>\<open>./result_cache\<close> (\<^verbatim>\<open>createResultCache\<close>
  and its \<^verbatim>\<open>getResultAsync\<close>), which is not among the sources. The spec's cache refresh
  policy: a fetch is attempted when there is no cached entry or the entry's age exceeds the
  refresh interval; a successful fetch replaces the entry and stamps it with the current
  time; a failed fetch leaves the entry as it was and the failure reaches the caller. Time
  is in milliseconds. \<open>query\<close> is what the pool query gives if it is run at this call; the
  flag returned says whether it was run.
\<close>

record ResultCache =
  entry :: "(RawPool list option \<times> int) option"
  cacheExpiryMs :: int

definition createResultCache :: "int \<Rightarrow> ResultCache" where
  "createResultCache expiryMs = \<lparr>entry = None, cacheExpiryMs = expiryMs\<rparr>"

definition needsFetch :: "int \<Rightarrow> ResultCache \<Rightarrow> bool" where
  "needsFetch now cache =
     (case entry cache of None \<Rightarrow> True | Some (result, timestamp) \<Rightarrow> cacheExpiryMs cache < now - timestamp)"

definition getResultAsync ::
  "int \<Rightarrow> string + RawPool list option \<Rightarrow> ResultCache
     \<Rightarrow> (string + RawPool list option) \<times> ResultCache \<times> bool" where
  "getResultAsync now query cache =
     (if needsFetch now cache
      then (case query of
              Inl error \<Rightarrow> (Inl error, cache, True)
            | Inr result \<Rightarrow> (Inr result, cache\<lparr>entry := Some (result, now)\<rparr>, True))
      else (case entry cache of
              Some (result, timestamp) \<Rightarrow> (Inr result, cache, False)
            | None \<Rightarrow> (Inr None, cache, False)))"

text \<open>
  Modelled from the spec: the constant \<^verbatim>\<open>TEN_MINUTES_MS\<close> of \<^verbatim>\<open>../constants\<close>, the refresh
  interval that the spec fixes at 10 minutes.
\<close>

definition TEN_MINUTES_MS :: int where
  "TEN_MINUTES_MS = 10 * 60 * 1000"

text \<open>
  The module's state: the variable \<^verbatim>\<open>PIN_CACHE\<close>, unset until the first call, and (for the
  statements about fetching) the number of times the pool query has run.
\<close>

record PinState =
  PIN_CACHE :: "ResultCache option"
  queryCount :: nat

definition initialPinState :: PinState where
  "initialPinState = \<lparr>PIN_CACHE = None, queryCount = 0\<rparr>"

definition getPoolsAsync ::
  "int \<Rightarrow> string + RawPool list option \<Rightarrow> PinState \<Rightarrow> (string + RawPool list option) \<times> PinState" where
  "getPoolsAsync now query st =
     (let cache = (case PIN_CACHE st of None \<Rightarrow> createResultCache TEN_MINUTES_MS | Some c \<Rightarrow> c);
          (outcome, cache', fetched) = getResultAsync now query cache
      in (outcome, \<lparr>PIN_CACHE = Some cache', queryCount = queryCount st + (if fetched then 1 else 0)\<rparr>))"

text \<open>A whole call of \<^verbatim>\<open>splitOrdersByPinningAsync\<close>, on the module's state.\<close>

definition splitOrdersByPinningAsync_call ::
  "string list \<Rightarrow> string list \<Rightarrow> int \<Rightarrow> string + RawPool list option \<Rightarrow> SignedLimitOrder list
     \<Rightarrow> PinState \<Rightarrow> (string + string list \<times> PinResult) \<times> PinState" where
  "splitOrdersByPinningAsync_call PINNED_MM_ADDRESSES PINNED_POOL_IDS now query signedOrders st =
     (let (poolsOutcome, st') = getPoolsAsync now query st
      in (splitOrdersByPinningAsync PINNED_MM_ADDRESSES PINNED_POOL_IDS poolsOutcome signedOrders, st'))"

text \<open>The entry that the module's cache holds, if any: the last pools fetched and when.\<close>

definition lastFetch :: "PinState \<Rightarrow> (RawPool list option \<times> int) option" where
  "lastFetch st = (case PIN_CACHE st of None \<Rightarrow> None | Some cache \<Rightarrow> entry cache)"

definition pinStateOk :: "PinState \<Rightarrow> bool" where
  \<comment> \<open>the cache, once made, is the one \<^verbatim>\<open>getPoolsAsync\<close> makes\<close>
  "pinStateOk st = (case PIN_CACHE st of None \<Rightarrow> True | Some cache \<Rightarrow> cacheExpiryMs cache = TEN_MINUTES_MS)"

subsection \<open>Sorting with a comparator\<close>

text \<open>
  The comparators are written for \<^verbatim>\<open>Array.prototype.sort\<close>, which is stable and puts \<open>x\<close>
  before \<open>y\<close> when the comparator's result on them is not positive (a \<^verbatim>\<open>null\<close> result
  counts as zero). Insertion from the right is such a stable sort.
\<close>

definition notAfter :: "('a \<Rightarrow> 'a \<Rightarrow> int option) \<Rightarrow> 'a \<Rightarrow> 'a \<Rightarrow> bool" where
  "notAfter cmp x y = (case cmp x y of None \<Rightarrow> True | Some n \<Rightarrow> n \<le> 0)"

fun insertBy :: "('a \<Rightarrow> 'a \<Rightarrow> int option) \<Rightarrow> 'a \<Rightarrow> 'a list \<Rightarrow> 'a list" where
  "insertBy cmp x [] = [x]"
| "insertBy cmp x (y # ys) = (if notAfter cmp x y then x # y # ys else y # insertBy cmp x ys)"

definition sortBy :: "('a \<Rightarrow> 'a \<Rightarrow> int option) \<Rightarrow> 'a list \<Rightarrow> 'a list" where
  "sortBy cmp xs = foldr (insertBy cmp) xs []"

subsection \<open>Auxiliary notions for the proofs\<close>

text \<open>Rounding a rational to the nearest integer, a tie away from zero.\<close>

definition round_half_up :: "rat \<Rightarrow> int" where
  "round_half_up q = (if 0 \<le> q then \<lfloor>q + 1 / 2\<rfloor> else - \<lfloor>- q + 1 / 2\<rfloor>)"

text \<open>
  The sort keys of an order, as the comparators compute them: the rounded price, the rounded
  fee rate (negated: the comparator ranks it downwards) and the expiry.
\<close>

definition askKey :: "nat \<Rightarrow> SignedLimitOrder \<Rightarrow> int \<times> int \<times> int" where
  "askKey dp a = (roundedQuotient dp (takerAmount a) (makerAmount a),
                  - roundedQuotient dp (takerTokenFeeAmount a) (takerAmount a), expiry a)"

definition bidKey :: "nat \<Rightarrow> SignedLimitOrder \<Rightarrow> int \<times> int \<times> int" where
  "bidKey dp a = (- roundedQuotient dp (makerAmount a) (takerAmount a),
                  - roundedQuotient dp (takerTokenFeeAmount a) (takerAmount a), expiry a)"

definition lexCompare :: "int \<times> int \<times> int \<Rightarrow> int \<times> int \<times> int \<Rightarrow> int" where
  "lexCompare k k' =
     (case (k, k') of ((p, f, e), (p', f', e')) \<Rightarrow>
        if p \<noteq> p' then sgn (p - p') else if f \<noteq> f' then sgn (f - f') else sgn (e - e'))"

text \<open>
  An order for the examples: only the maker and the four numbers the comparators read vary.
\<close>

definition sampleSignature :: Signature where
  "sampleSignature = \<lparr>signatureType = 2, r = ''0xaa'', s = ''0xbb'', v = 27\<rparr>"

definition sampleOrder :: "string \<Rightarrow> int \<Rightarrow> int \<Rightarrow> int \<Rightarrow> int \<Rightarrow> SignedLimitOrder" where
  "sampleOrder mk makerAmt takerAmt fee expires =
     \<lparr>signature = sampleSignature, sender = ''0x00'', maker = mk, taker = ''0x00'',
      takerTokenFeeAmount = fee, makerAmount = makerAmt, takerAmount = takerAmt,
      makerToken = ''0x01'', takerToken = ''0x02'', salt = 1, verifyingContract = ''0x03'',
      feeRecipient = ''0x04'', expiry = expires, chainId = 1, pool = ''0x05''\<rparr>"

section \<open>Rounded quotients\<close>

text \<open>
  \<open>roundedQuotient\<close> is the exact quotient, scaled by \<open>10 ^ dp\<close> and rounded half up. It is
  monotone in the exact quotient, it depends on the exact quotient only, and it keeps two
  quotients apart when the product of their denominators is at most \<open>10 ^ dp\<close>.
\<close>

lemma half_floor:
  assumes "0 < y"
  shows "(2 * x + y) div (2 * y) = \<lfloor>(of_int x / of_int y :: rat) + 1 / 2\<rfloor>"
proof -
  have "(of_int x / of_int y :: rat) + 1 / 2 = of_int (2 * x + y) / of_int (2 * y)"
    using assms by (simp add: field_simps)
  then show ?thesis by (simp only: floor_divide_of_int_eq)
qed

lemma roundedQuotient_rat:
  assumes "0 < y"
  shows "roundedQuotient dp x y = round_half_up (of_int (x * 10 ^ dp) / of_int y)"
proof (cases "0 \<le> x")
  case True
  have "roundedQuotient dp x y = (2 * (x * 10 ^ dp) + y) div (2 * y)"
    using True assms by (cases "x = 0") (simp_all add: roundedQuotient_def mult.assoc)
  also have "\<dots> = \<lfloor>(of_int (x * 10 ^ dp) / of_int y :: rat) + 1 / 2\<rfloor>"
    by (rule half_floor [OF assms])
  also have "\<dots> = round_half_up (of_int (x * 10 ^ dp) / of_int y)"
    using True assms by (simp add: round_half_up_def zero_le_divide_iff zero_le_mult_iff)
  finally show ?thesis .
next
  case False
  then have neg: "x < 0" by simp
  have q: "(of_int (x * 10 ^ dp) / of_int y :: rat) < 0"
    using neg assms by (simp add: divide_less_0_iff mult_less_0_iff)
  have "roundedQuotient dp x y = - ((2 * ((- x) * 10 ^ dp) + y) div (2 * y))"
    using neg assms by (simp add: roundedQuotient_def mult.assoc)
  also have "\<dots> = - \<lfloor>(of_int ((- x) * 10 ^ dp) / of_int y :: rat) + 1 / 2\<rfloor>"
    by (simp only: half_floor [OF assms])
  also have "\<dots> = round_half_up (of_int (x * 10 ^ dp) / of_int y)"
    using q by (simp add: round_half_up_def)
  finally show ?thesis .
qed

lemma round_half_up_mono: "p \<le> q \<Longrightarrow> round_half_up p \<le> round_half_up q"
  unfolding round_half_up_def by (auto intro!: floor_mono) linarith+

lemma round_half_up_strict: "p + 1 \<le> q \<Longrightarrow> round_half_up p < round_half_up q"
  unfolding round_half_up_def by auto linarith+

lemma roundedQuotient_mono:
  assumes "0 < y" "0 < y'" "x * y' \<le> x' * y"
  shows "roundedQuotient dp x y \<le> roundedQuotient dp x' y'"
proof -
  have "(x * y') * 10 ^ dp \<le> (x' * y) * 10 ^ dp"
    using assms(3) by (rule mult_right_mono) simp
  then have "(of_int ((x * y') * 10 ^ dp) :: rat) \<le> of_int ((x' * y) * 10 ^ dp)"
    by (simp only: of_int_le_iff)
  then have "(of_int (x * 10 ^ dp) / of_int y :: rat) \<le> of_int (x' * 10 ^ dp) / of_int y'"
    using assms(1,2) by (simp add: field_simps)
  then show ?thesis
    by (simp only: roundedQuotient_rat [OF assms(1)] roundedQuotient_rat [OF assms(2)] round_half_up_mono)
qed

lemma roundedQuotient_cong:
  assumes "0 < y" "0 < y'" "x * y' = x' * y"
  shows "roundedQuotient dp x y = roundedQuotient dp x' y'"
  using roundedQuotient_mono [OF assms(1,2), of x x' dp] roundedQuotient_mono [OF assms(2,1), of x' x dp] assms(3)
  by simp

lemma roundedQuotient_strict:
  assumes "0 < y" "0 < y'" "x * y' < x' * y" "y * y' \<le> 10 ^ dp"
  shows "roundedQuotient dp x y < roundedQuotient dp x' y'"
proof -
  have "1 \<le> x' * y - x * y'" using assms(3) by simp
  then have "1 * 10 ^ dp \<le> (x' * y - x * y') * (10 ^ dp :: int)"
    by (rule mult_right_mono) simp
  with assms(4) have "(x * y') * 10 ^ dp + y * y' \<le> (x' * y) * 10 ^ dp"
    by (simp add: algebra_simps)
  then have "(of_int ((x * y') * 10 ^ dp + y * y') :: rat) \<le> of_int ((x' * y) * 10 ^ dp)"
    by (simp only: of_int_le_iff)
  then have "(of_int (x * 10 ^ dp) / of_int y :: rat) + 1 \<le> of_int (x' * 10 ^ dp) / of_int y'"
    using assms(1,2) by (simp add: field_simps)
  then show ?thesis
    by (simp only: roundedQuotient_rat [OF assms(1)] roundedQuotient_rat [OF assms(2)] round_half_up_strict)
qed

lemma bignumber_div_pos: "0 < y \<Longrightarrow> bignumber_div dp x y = Finite (roundedQuotient dp x y) dp"
  by (simp add: bignumber_div_def)

lemma isEqualTo_same_scale: "isEqualTo (Finite c d) (Finite c' d) = (c = c')"
  by simp

lemma comparedTo_same_scale: "comparedTo (Finite c d) (Finite c' d) = Some (sgn (c - c'))"
  by (simp add: sgn_if)

lemma compareOrderByFeeRatio_pos:
  assumes "0 < takerAmount a" "0 < takerAmount b"
  shows "compareOrderByFeeRatio dp a b =
     Some (if roundedQuotient dp (takerTokenFeeAmount a) (takerAmount a)
              \<noteq> roundedQuotient dp (takerTokenFeeAmount b) (takerAmount b)
           then sgn (roundedQuotient dp (takerTokenFeeAmount b) (takerAmount b)
                     - roundedQuotient dp (takerTokenFeeAmount a) (takerAmount a))
           else sgn (expiry a - expiry b))"
  using assms
  by (simp add: compareOrderByFeeRatio_def bignumber_div_pos comparedTo_same_scale del: comparedTo.simps)

lemma compareAskOrder_pos:
  assumes "0 < makerAmount a" "0 < makerAmount b"
  shows "compareAskOrder dp a b =
     (if roundedQuotient dp (takerAmount a) (makerAmount a)
              \<noteq> roundedQuotient dp (takerAmount b) (makerAmount b)
      then Some (sgn (roundedQuotient dp (takerAmount a) (makerAmount a)
                     - roundedQuotient dp (takerAmount b) (makerAmount b)))
      else compareOrderByFeeRatio dp a b)"
  using assms
  by (simp add: compareAskOrder_def bignumber_div_pos comparedTo_same_scale del: comparedTo.simps)

lemma compareBidOrder_pos:
  assumes "0 < takerAmount a" "0 < takerAmount b"
  shows "compareBidOrder dp a b =
     (if roundedQuotient dp (makerAmount a) (takerAmount a)
              \<noteq> roundedQuotient dp (makerAmount b) (takerAmount b)
      then Some (sgn (roundedQuotient dp (makerAmount b) (takerAmount b)
                     - roundedQuotient dp (makerAmount a) (takerAmount a)))
      else compareOrderByFeeRatio dp a b)"
  using assms
  by (simp add: compareBidOrder_def bignumber_div_pos comparedTo_same_scale del: comparedTo.simps)

lemma compareAskOrder_key:
  assumes "0 < makerAmount a" "0 < takerAmount a" "0 < makerAmount b" "0 < takerAmount b"
  shows "compareAskOrder dp a b = Some (lexCompare (askKey dp a) (askKey dp b))"
  using assms
  by (simp add: compareAskOrder_pos compareOrderByFeeRatio_pos lexCompare_def askKey_def)

lemma compareBidOrder_key:
  assumes "0 < makerAmount a" "0 < takerAmount a" "0 < makerAmount b" "0 < takerAmount b"
  shows "compareBidOrder dp a b = Some (lexCompare (bidKey dp a) (bidKey dp b))"
  using assms
  by (simp add: compareBidOrder_pos compareOrderByFeeRatio_pos lexCompare_def bidKey_def)

lemma lexCompare_refl: "lexCompare k k = 0"
  by (simp add: lexCompare_def split: prod.splits)

lemma lexCompare_flip: "lexCompare k' k = - lexCompare k k'"
  by (auto simp add: lexCompare_def sgn_if split: prod.splits)

lemma lexCompare_trans: "lexCompare k k' \<le> 0 \<Longrightarrow> lexCompare k' k'' \<le> 0 \<Longrightarrow> lexCompare k k'' \<le> 0"
  by (auto simp add: lexCompare_def sgn_if split: prod.splits if_splits)


section \<open>Sorting with the comparators\<close>

lemma set_insertBy: "set (insertBy cmp x xs) = insert x (set xs)"
  by (induction xs) auto

lemma set_sortBy: "set (sortBy cmp xs) = set xs"
  by (induction xs) (simp_all add: sortBy_def set_insertBy)

lemma sortBy_Cons: "sortBy cmp (x # xs) = insertBy cmp x (sortBy cmp xs)"
  by (simp add: sortBy_def)

lemma insertBy_sorted_front:
  "sorted_wrt (notAfter cmp) (x # xs) \<Longrightarrow> insertBy cmp x xs = x # xs"
  by (cases xs) simp_all

lemma sortBy_sorted_id: "sorted_wrt (notAfter cmp) xs \<Longrightarrow> sortBy cmp xs = xs"
proof (induction xs)
  case Nil
  show ?case by (simp add: sortBy_def)
next
  case (Cons x xs)
  then have "sortBy cmp xs = xs" by simp
  with Cons.prems show ?case
    by (simp only: sortBy_Cons insertBy_sorted_front)
qed

lemma sorted_insertBy:
  assumes key: "\<And>x y. x \<in> A \<Longrightarrow> y \<in> A \<Longrightarrow> cmp x y = Some (lexCompare (key x) (key y))"
    and "x \<in> A" "set xs \<subseteq> A" "sorted_wrt (notAfter cmp) xs"
  shows "sorted_wrt (notAfter cmp) (insertBy cmp x xs)"
  using assms(2-)
proof (induction xs)
  case Nil
  show ?case by simp
next
  case (Cons y ys)
  have le: "notAfter cmp u w \<longleftrightarrow> lexCompare (key u) (key w) \<le> 0" if "u \<in> A" "w \<in> A" for u w
    using key [OF that] by (simp add: notAfter_def)
  from Cons.prems have xA: "x \<in> A" and yA: "y \<in> A" by simp_all
  show ?case
  proof (cases "notAfter cmp x y")
    case True
    have "notAfter cmp x z" if "z \<in> set ys" for z
    proof -
      from that Cons.prems have zA: "z \<in> A" and yz: "notAfter cmp y z" by auto
      from True have "lexCompare (key x) (key y) \<le> 0"
        by (simp add: le [OF xA yA])
      moreover from yz have "lexCompare (key y) (key z) \<le> 0"
        by (simp add: le [OF yA zA])
      ultimately have "lexCompare (key x) (key z) \<le> 0" by (rule lexCompare_trans)
      then show ?thesis by (simp add: le [OF xA zA])
    qed
    with True Cons.prems show ?thesis by simp
  next
    case False
    from False have "0 < lexCompare (key x) (key y)"
      by (simp add: le [OF xA yA])
    then have "lexCompare (key y) (key x) \<le> 0"
      by (simp add: lexCompare_flip [of "key x" "key y"])
    then have yx: "notAfter cmp y x"
      by (simp add: le [OF yA xA])
    from Cons.prems have "sorted_wrt (notAfter cmp) (insertBy cmp x ys)"
      by (intro Cons.IH) simp_all
    with yx Cons.prems False show ?thesis
      by (auto simp add: set_insertBy)
  qed
qed

lemma sorted_sortBy:
  assumes key: "\<And>x y. x \<in> A \<Longrightarrow> y \<in> A \<Longrightarrow> cmp x y = Some (lexCompare (key x) (key y))"
    and "set xs \<subseteq> A"
  shows "sorted_wrt (notAfter cmp) (sortBy cmp xs)"
  using assms(2)
proof (induction xs)
  case Nil
  show ?case by (simp add: sortBy_def)
next
  case (Cons x xs)
  then have "sorted_wrt (notAfter cmp) (sortBy cmp xs)" by simp
  moreover have "x \<in> A" "set (sortBy cmp xs) \<subseteq> A"
    using Cons.prems by (simp_all add: set_sortBy)
  ultimately show ?case
    by (simp only: sortBy_Cons sorted_insertBy [OF key])
qed

lemma sortBy_idem:
  assumes key: "\<And>x y. x \<in> A \<Longrightarrow> y \<in> A \<Longrightarrow> cmp x y = Some (lexCompare (key x) (key y))"
    and "set xs \<subseteq> A"
  shows "sortBy cmp (sortBy cmp xs) = sortBy cmp xs"
  by (rule sortBy_sorted_id) (rule sorted_sortBy [OF key assms(2)])

lemma sortBy_ask_idem:
  assumes "\<forall>x \<in> set xs. 0 < makerAmount x \<and> 0 < takerAmount x"
  shows "sortBy (compareAskOrder dp) (sortBy (compareAskOrder dp) xs) = sortBy (compareAskOrder dp) xs"
proof (rule sortBy_idem [where A = "{x. 0 < makerAmount x \<and> 0 < takerAmount x}" and key = "askKey dp"])
  show "set xs \<subseteq> {x. 0 < makerAmount x \<and> 0 < takerAmount x}" using assms by auto
qed (simp add: compareAskOrder_key)

lemma sortBy_bid_idem:
  assumes "\<forall>x \<in> set xs. 0 < makerAmount x \<and> 0 < takerAmount x"
  shows "sortBy (compareBidOrder dp) (sortBy (compareBidOrder dp) xs) = sortBy (compareBidOrder dp) xs"
proof (rule sortBy_idem [where A = "{x. 0 < makerAmount x \<and> 0 < takerAmount x}" and key = "bidKey dp"])
  show "set xs \<subseteq> {x. 0 < makerAmount x \<and> 0 < takerAmount x}" using assms by auto
qed (simp add: compareBidOrder_key)


section \<open>Ranking\<close>

text \<open>
  Claim C1, as the code has it. \<^verbatim>\<open>compareOrderByFeeRatio\<close> returns
  \<^verbatim>\<open>orderBFeePrice.comparedTo(orderAFeePrice)\<close>: it ranks the fee rate downwards, and it
  compares the rates after \<^verbatim>\<open>div\<close> has rounded them. For two orders with positive
  \<open>takerAmount\<close>: when the fee rate of \<open>a\<close> is strictly lower than that of \<open>b\<close>, the
  result is \<open>1\<close> (\<open>b\<close> ranks first) if the rounded rates differ, which they do whenever
  \<open>takerAmount a * takerAmount b \<le> 10 ^ dp\<close>, and it is the comparison of the expiries if
  rounding has made the rates equal; when the fee rates are exactly equal, the result is the
  comparison of the expiries, the order that expires sooner first.
\<close>

theorem compareOrderByFeeRatio_fee_descending:
  assumes "0 < takerAmount a" "0 < takerAmount b"
  shows "(takerTokenFeeAmount a * takerAmount b < takerTokenFeeAmount b * takerAmount a \<longrightarrow>
            compareOrderByFeeRatio dp a b =
              (if roundedQuotient dp (takerTokenFeeAmount a) (takerAmount a)
                  = roundedQuotient dp (takerTokenFeeAmount b) (takerAmount b)
               then Some (sgn (expiry a - expiry b)) else Some 1))
       \<and> (takerTokenFeeAmount a * takerAmount b < takerTokenFeeAmount b * takerAmount a
            \<and> takerAmount a * takerAmount b \<le> 10 ^ dp \<longrightarrow>
            compareOrderByFeeRatio dp a b = Some 1)
       \<and> (takerTokenFeeAmount a * takerAmount b = takerTokenFeeAmount b * takerAmount a \<longrightarrow>
            compareOrderByFeeRatio dp a b = Some (sgn (expiry a - expiry b)))"
proof (intro conjI impI)
  assume lt: "takerTokenFeeAmount a * takerAmount b < takerTokenFeeAmount b * takerAmount a"
  then have "roundedQuotient dp (takerTokenFeeAmount a) (takerAmount a)
      \<le> roundedQuotient dp (takerTokenFeeAmount b) (takerAmount b)"
    using assms by (intro roundedQuotient_mono) simp_all
  then show "compareOrderByFeeRatio dp a b =
              (if roundedQuotient dp (takerTokenFeeAmount a) (takerAmount a)
                  = roundedQuotient dp (takerTokenFeeAmount b) (takerAmount b)
               then Some (sgn (expiry a - expiry b)) else Some 1)"
    by (simp add: compareOrderByFeeRatio_pos [OF assms])
next
  assume "takerTokenFeeAmount a * takerAmount b < takerTokenFeeAmount b * takerAmount a
            \<and> takerAmount a * takerAmount b \<le> 10 ^ dp"
  then have "roundedQuotient dp (takerTokenFeeAmount a) (takerAmount a)
      < roundedQuotient dp (takerTokenFeeAmount b) (takerAmount b)"
    using assms by (intro roundedQuotient_strict) simp_all
  then show "compareOrderByFeeRatio dp a b = Some 1"
    by (simp add: compareOrderByFeeRatio_pos [OF assms])
next
  assume "takerTokenFeeAmount a * takerAmount b = takerTokenFeeAmount b * takerAmount a"
  then have "roundedQuotient dp (takerTokenFeeAmount a) (takerAmount a)
      = roundedQuotient dp (takerTokenFeeAmount b) (takerAmount b)"
    using assms by (intro roundedQuotient_cong) simp_all
  then show "compareOrderByFeeRatio dp a b = Some (sgn (expiry a - expiry b))"
    by (simp add: compareOrderByFeeRatio_pos [OF assms])
qed

theorem compareOrderByFeeRatio_fee_descending_witness:
  "compareOrderByFeeRatio 78 (sampleOrder ''0x10'' 100 100 1 1000) (sampleOrder ''0x11'' 100 100 2 1000) = Some 1
   \<and> compareOrderByFeeRatio 78 (sampleOrder ''0x10'' 100 300 3 1000) (sampleOrder ''0x11'' 100 100 1 2000) = Some (- 1)"
proof -
  let ?a = "sampleOrder ''0x10'' 100 100 1 1000" and ?b = "sampleOrder ''0x11'' 100 100 2 1000"
  let ?c = "sampleOrder ''0x10'' 100 300 3 1000" and ?d = "sampleOrder ''0x11'' 100 100 1 2000"
  have pos: "0 < takerAmount ?a" "0 < takerAmount ?b" "0 < takerAmount ?c" "0 < takerAmount ?d"
    by (simp_all add: sampleOrder_def)
  have lower: "takerTokenFeeAmount ?a * takerAmount ?b < takerTokenFeeAmount ?b * takerAmount ?a
      \<and> takerAmount ?a * takerAmount ?b \<le> 10 ^ 78"
    by (simp add: sampleOrder_def)
  have same: "takerTokenFeeAmount ?c * takerAmount ?d = takerTokenFeeAmount ?d * takerAmount ?c"
    by (simp add: sampleOrder_def)
  have "compareOrderByFeeRatio 78 ?a ?b = Some 1"
    using compareOrderByFeeRatio_fee_descending [OF pos(1,2), where dp = 78] lower by blast
  moreover have "compareOrderByFeeRatio 78 ?c ?d = Some (sgn (expiry ?c - expiry ?d))"
    using compareOrderByFeeRatio_fee_descending [OF pos(3,4), where dp = 78] same by blast
  then have "compareOrderByFeeRatio 78 ?c ?d = Some (- 1)"
    by (simp add: sampleOrder_def)
  ultimately show ?thesis by simp
qed

text \<open>
  As claim C1 is worded (the lower fee rate ranks first) it fails: with fee rates \<open>1/100\<close>
  and \<open>2/100\<close> the comparator returns \<open>1\<close>, which puts the order with the lower rate last.
\<close>

theorem lower_fee_rate_ranks_last_counterexample:
  "0 < takerAmount (sampleOrder ''0x10'' 100 100 1 1000)
   \<and> 0 < takerAmount (sampleOrder ''0x11'' 100 100 2 1000)
   \<and> takerTokenFeeAmount (sampleOrder ''0x10'' 100 100 1 1000) * takerAmount (sampleOrder ''0x11'' 100 100 2 1000)
       < takerTokenFeeAmount (sampleOrder ''0x11'' 100 100 2 1000) * takerAmount (sampleOrder ''0x10'' 100 100 1 1000)
   \<and> compareOrderByFeeRatio 78 (sampleOrder ''0x10'' 100 100 1 1000) (sampleOrder ''0x11'' 100 100 2 1000) = Some 1
   \<and> compareOrderByFeeRatio 20 (sampleOrder ''0x10'' 100 100 1 1000) (sampleOrder ''0x11'' 100 100 2 1000) = Some 1"
  by (simp add: compareOrderByFeeRatio_def bignumber_div_def roundedQuotient_def sampleOrder_def)

text \<open>
  Claim C2, as the code has it. The prices are compared after \<^verbatim>\<open>div\<close> has rounded them to
  \<open>dp\<close> decimal places. For two orders with positive amounts whose maker amounts have a
  product of at most \<open>10 ^ dp\<close>, this is the exact comparison by cross-multiplication:
  the prices are taken as equal exactly when
  \<open>takerAmount a * makerAmount b = takerAmount b * makerAmount a\<close>, \<open>comparedTo\<close> gives the
  sign of the difference of the cross products, and \<^verbatim>\<open>compareAskOrder\<close> returns that sign
  unless the cross products are equal, when it returns the fee comparison. The fee rates are
  compared exactly in the same way (and ranked downwards) when the product of the two taker
  amounts is at most \<open>10 ^ dp\<close>, whatever the maker amounts.
\<close>

theorem price_comparison_exact_within_precision:
  assumes "0 < makerAmount a" "0 < takerAmount a" "0 < makerAmount b" "0 < takerAmount b"
  shows "(makerAmount a * makerAmount b \<le> 10 ^ dp \<longrightarrow>
            (isEqualTo (bignumber_div dp (takerAmount a) (makerAmount a))
                       (bignumber_div dp (takerAmount b) (makerAmount b))
               \<longleftrightarrow> takerAmount a * makerAmount b = takerAmount b * makerAmount a)
            \<and> comparedTo (bignumber_div dp (takerAmount a) (makerAmount a))
                          (bignumber_div dp (takerAmount b) (makerAmount b))
                 = Some (sgn (takerAmount a * makerAmount b - takerAmount b * makerAmount a))
            \<and> compareAskOrder dp a b =
                 (if takerAmount a * makerAmount b = takerAmount b * makerAmount a
                  then compareOrderByFeeRatio dp a b
                  else Some (sgn (takerAmount a * makerAmount b - takerAmount b * makerAmount a))))
       \<and> (takerAmount a * takerAmount b \<le> 10 ^ dp \<longrightarrow>
            (isEqualTo (bignumber_div dp (takerTokenFeeAmount a) (takerAmount a))
                       (bignumber_div dp (takerTokenFeeAmount b) (takerAmount b))
               \<longleftrightarrow> takerTokenFeeAmount a * takerAmount b = takerTokenFeeAmount b * takerAmount a)
            \<and> compareOrderByFeeRatio dp a b =
                 (if takerTokenFeeAmount a * takerAmount b = takerTokenFeeAmount b * takerAmount a
                  then Some (sgn (expiry a - expiry b))
                  else Some (sgn (takerTokenFeeAmount b * takerAmount a - takerTokenFeeAmount a * takerAmount b))))"
proof -
  have exact: "sgn (roundedQuotient dp x y - roundedQuotient dp x' y') = sgn (x * y' - x' * y)"
    if "0 < y" "0 < y'" "y * y' \<le> 10 ^ dp" for x y x' y' :: int
  proof -
    consider "x * y' < x' * y" | "x * y' = x' * y" | "x' * y < x * y'" by linarith
    then show ?thesis
    proof cases
      case 1
      with that have "roundedQuotient dp x y < roundedQuotient dp x' y'"
        by (intro roundedQuotient_strict)
      with 1 show ?thesis by simp
    next
      case 2
      with that have "roundedQuotient dp x y = roundedQuotient dp x' y'"
        by (intro roundedQuotient_cong)
      with 2 show ?thesis by simp
    next
      case 3
      with that have "roundedQuotient dp x' y' < roundedQuotient dp x y"
        by (intro roundedQuotient_strict) (simp_all add: mult.commute)
      with 3 show ?thesis by simp
    qed
  qed
  have eq_iff: "u = w \<longleftrightarrow> u' = w'" if "sgn (u - w) = sgn (u' - w')" for u w u' w' :: int
    using that by (auto simp add: sgn_if split: if_splits)
  have price: "(isEqualTo (bignumber_div dp (takerAmount a) (makerAmount a))
                       (bignumber_div dp (takerAmount b) (makerAmount b))
               \<longleftrightarrow> takerAmount a * makerAmount b = takerAmount b * makerAmount a)
            \<and> comparedTo (bignumber_div dp (takerAmount a) (makerAmount a))
                          (bignumber_div dp (takerAmount b) (makerAmount b))
                 = Some (sgn (takerAmount a * makerAmount b - takerAmount b * makerAmount a))
            \<and> compareAskOrder dp a b =
                 (if takerAmount a * makerAmount b = takerAmount b * makerAmount a
                  then compareOrderByFeeRatio dp a b
                  else Some (sgn (takerAmount a * makerAmount b - takerAmount b * makerAmount a)))"
    if bound: "makerAmount a * makerAmount b \<le> 10 ^ dp"
  proof -
    note quot = exact [OF assms(1) assms(3) bound, of "takerAmount a" "takerAmount b"]
    have 1: "isEqualTo (bignumber_div dp (takerAmount a) (makerAmount a))
                      (bignumber_div dp (takerAmount b) (makerAmount b))
              \<longleftrightarrow> takerAmount a * makerAmount b = takerAmount b * makerAmount a"
      using assms(1,3) eq_iff [OF quot] by (simp add: bignumber_div_pos)
    have 2: "comparedTo (bignumber_div dp (takerAmount a) (makerAmount a))
                       (bignumber_div dp (takerAmount b) (makerAmount b))
              = Some (sgn (takerAmount a * makerAmount b - takerAmount b * makerAmount a))"
      using assms(1,3) quot by (simp add: bignumber_div_pos comparedTo_same_scale del: comparedTo.simps)
    have 3: "compareAskOrder dp a b =
              (if takerAmount a * makerAmount b = takerAmount b * makerAmount a
               then compareOrderByFeeRatio dp a b
               else Some (sgn (takerAmount a * makerAmount b - takerAmount b * makerAmount a)))"
      using eq_iff [OF quot] quot by (simp add: compareAskOrder_pos [OF assms(1,3)])
    from 1 2 3 show ?thesis by (intro conjI)
  qed
  have fee: "(isEqualTo (bignumber_div dp (takerTokenFeeAmount a) (takerAmount a))
                       (bignumber_div dp (takerTokenFeeAmount b) (takerAmount b))
               \<longleftrightarrow> takerTokenFeeAmount a * takerAmount b = takerTokenFeeAmount b * takerAmount a)
            \<and> compareOrderByFeeRatio dp a b =
                 (if takerTokenFeeAmount a * takerAmount b = takerTokenFeeAmount b * takerAmount a
                  then Some (sgn (expiry a - expiry b))
                  else Some (sgn (takerTokenFeeAmount b * takerAmount a - takerTokenFeeAmount a * takerAmount b)))"
    if bound: "takerAmount a * takerAmount b \<le> 10 ^ dp"
  proof -
    have "takerAmount b * takerAmount a \<le> 10 ^ dp" using bound by (simp add: mult.commute)
    note quot = exact [OF assms(4) assms(2) this, of "takerTokenFeeAmount b" "takerTokenFeeAmount a"]
    have same: "roundedQuotient dp (takerTokenFeeAmount a) (takerAmount a)
          = roundedQuotient dp (takerTokenFeeAmount b) (takerAmount b)
        \<longleftrightarrow> takerTokenFeeAmount a * takerAmount b = takerTokenFeeAmount b * takerAmount a"
      using eq_iff [OF quot] by (simp only: eq_commute [of "roundedQuotient dp (takerTokenFeeAmount a) (takerAmount a)"]
          eq_commute [of "takerTokenFeeAmount a * takerAmount b"])
    have 1: "isEqualTo (bignumber_div dp (takerTokenFeeAmount a) (takerAmount a))
                       (bignumber_div dp (takerTokenFeeAmount b) (takerAmount b))
               \<longleftrightarrow> takerTokenFeeAmount a * takerAmount b = takerTokenFeeAmount b * takerAmount a"
      using assms(2,4) same by (simp add: bignumber_div_pos)
    have 2: "compareOrderByFeeRatio dp a b =
                 (if takerTokenFeeAmount a * takerAmount b = takerTokenFeeAmount b * takerAmount a
                  then Some (sgn (expiry a - expiry b))
                  else Some (sgn (takerTokenFeeAmount b * takerAmount a - takerTokenFeeAmount a * takerAmount b)))"
    proof (cases "takerTokenFeeAmount a * takerAmount b = takerTokenFeeAmount b * takerAmount a")
      case True
      with same show ?thesis
        by (simp add: compareOrderByFeeRatio_pos [OF assms(2,4)])
    next
      case False
      with same have "roundedQuotient dp (takerTokenFeeAmount a) (takerAmount a)
          \<noteq> roundedQuotient dp (takerTokenFeeAmount b) (takerAmount b)"
        by simp
      with False quot show ?thesis
        by (simp add: compareOrderByFeeRatio_pos [OF assms(2,4)])
    qed
    from 1 2 show ?thesis by (intro conjI)
  qed
  from price fee show ?thesis by blast
qed

theorem price_comparison_exact_within_precision_witness:
  "compareAskOrder 78 (sampleOrder ''0x10'' 3 1 0 1000) (sampleOrder ''0x11'' 6 2 0 1000)
     = compareOrderByFeeRatio 78 (sampleOrder ''0x10'' 3 1 0 1000) (sampleOrder ''0x11'' 6 2 0 1000)
   \<and> compareAskOrder 78 (sampleOrder ''0x10'' 3 1 0 1000) (sampleOrder ''0x11'' 7 2 0 1000) = Some 1
   \<and> compareAskOrder 78 (sampleOrder ''0x10'' 3 1 0 1000) (sampleOrder ''0x11'' 5 2 0 1000) = Some (- 1)
   \<and> compareOrderByFeeRatio 78 (sampleOrder ''0x10'' (10 ^ 40) 100 1 1000)
        (sampleOrder ''0x11'' (10 ^ 40) 100 2 1000) = Some 1"
proof -
  let ?a = "sampleOrder ''0x10'' 3 1 0 1000"
  let ?c = "sampleOrder ''0x10'' (10 ^ 40) 100 1 1000" and ?d = "sampleOrder ''0x11'' (10 ^ 40) 100 2 1000"
  have a: "0 < makerAmount ?a" "0 < takerAmount ?a"
    by (simp_all add: sampleOrder_def)
  have b: "0 < makerAmount (sampleOrder ''0x11'' m 2 0 1000)" "0 < takerAmount (sampleOrder ''0x11'' m 2 0 1000)"
    and bound: "makerAmount ?a * makerAmount (sampleOrder ''0x11'' m 2 0 1000) \<le> 10 ^ 78"
    if "m \<in> {5, 6, 7}" for m
    using that by (auto simp add: sampleOrder_def)
  have "compareAskOrder 78 ?a (sampleOrder ''0x11'' 6 2 0 1000)
      = compareOrderByFeeRatio 78 ?a (sampleOrder ''0x11'' 6 2 0 1000)"
    using price_comparison_exact_within_precision [OF a b, of 6 78] bound [of 6]
    by (simp add: sampleOrder_def)
  moreover have "compareAskOrder 78 ?a (sampleOrder ''0x11'' 7 2 0 1000) = Some 1"
    using price_comparison_exact_within_precision [OF a b, of 7 78] bound [of 7]
    by (simp add: sampleOrder_def)
  moreover have "compareAskOrder 78 ?a (sampleOrder ''0x11'' 5 2 0 1000) = Some (- 1)"
    using price_comparison_exact_within_precision [OF a b, of 5 78] bound [of 5]
    by (simp add: sampleOrder_def)
  moreover have "compareOrderByFeeRatio 78 ?c ?d = Some 1"
  proof -
    have pos: "0 < makerAmount ?c" "0 < takerAmount ?c" "0 < makerAmount ?d" "0 < takerAmount ?d"
      by (simp_all add: sampleOrder_def)
    have "takerAmount ?c * takerAmount ?d \<le> 10 ^ 78"
      by (simp add: sampleOrder_def)
    with price_comparison_exact_within_precision [OF pos, of 78]
    have "compareOrderByFeeRatio 78 ?c ?d =
        (if takerTokenFeeAmount ?c * takerAmount ?d = takerTokenFeeAmount ?d * takerAmount ?c
         then Some (sgn (expiry ?c - expiry ?d))
         else Some (sgn (takerTokenFeeAmount ?d * takerAmount ?c - takerTokenFeeAmount ?c * takerAmount ?d)))"
      by blast
    then show ?thesis by (simp add: sampleOrder_def)
  qed
  ultimately show ?thesis by simp
qed

text \<open>
  As claim C2 is worded (for all positive amounts, with no rounding) it fails: the prices
  \<open>1/3\<close> and \<open>(10 ^ 80 + 1) / (3 * 10 ^ 80)\<close> differ, and \<^verbatim>\<open>div\<close> rounds both to the same
  decimal, with 78 decimal places as with 20, so that \<^verbatim>\<open>isEqualTo\<close> holds of them.
\<close>

theorem rounded_prices_collide_counterexample:
  "0 < makerAmount (sampleOrder ''0x10'' 3 1 0 1000) \<and> 0 < takerAmount (sampleOrder ''0x10'' 3 1 0 1000)
   \<and> 0 < makerAmount (sampleOrder ''0x11'' (3 * 10 ^ 80) (10 ^ 80 + 1) 0 1000)
   \<and> 0 < takerAmount (sampleOrder ''0x11'' (3 * 10 ^ 80) (10 ^ 80 + 1) 0 1000)
   \<and> takerAmount (sampleOrder ''0x10'' 3 1 0 1000) * makerAmount (sampleOrder ''0x11'' (3 * 10 ^ 80) (10 ^ 80 + 1) 0 1000)
       < takerAmount (sampleOrder ''0x11'' (3 * 10 ^ 80) (10 ^ 80 + 1) 0 1000) * makerAmount (sampleOrder ''0x10'' 3 1 0 1000)
   \<and> isEqualTo (bignumber_div 78 (takerAmount (sampleOrder ''0x10'' 3 1 0 1000)) (makerAmount (sampleOrder ''0x10'' 3 1 0 1000)))
        (bignumber_div 78 (takerAmount (sampleOrder ''0x11'' (3 * 10 ^ 80) (10 ^ 80 + 1) 0 1000))
           (makerAmount (sampleOrder ''0x11'' (3 * 10 ^ 80) (10 ^ 80 + 1) 0 1000)))
   \<and> isEqualTo (bignumber_div 20 (takerAmount (sampleOrder ''0x10'' 3 1 0 1000)) (makerAmount (sampleOrder ''0x10'' 3 1 0 1000)))
        (bignumber_div 20 (takerAmount (sampleOrder ''0x11'' (3 * 10 ^ 80) (10 ^ 80 + 1) 0 1000))
           (makerAmount (sampleOrder ''0x11'' (3 * 10 ^ 80) (10 ^ 80 + 1) 0 1000)))"
  by (simp add: bignumber_div_def roundedQuotient_def sampleOrder_def)

text \<open>
  Claim C3, as the code has it. For two ask orders with positive amounts, equal fee rate
  and equal expiry, of which \<open>a\<close> has the strictly lower price
  \<open>takerAmount / makerAmount\<close>: \<^verbatim>\<open>compareAskOrder a b\<close> is \<open>- 1\<close> when the rounded prices
  differ, which they do whenever \<open>makerAmount a * makerAmount b \<le> 10 ^ dp\<close>, and \<open>0\<close> when
  rounding has made them equal; it is never positive. The example of the claim, maker 100
  and taker 90 against maker 100 and taker 95, is the witness.
\<close>

theorem price_dominance_within_precision:
  assumes "0 < makerAmount a" "0 < takerAmount a" "0 < makerAmount b" "0 < takerAmount b"
    and fee: "takerTokenFeeAmount a * takerAmount b = takerTokenFeeAmount b * takerAmount a"
    and expiry: "expiry a = expiry b"
    and price: "takerAmount a * makerAmount b < takerAmount b * makerAmount a"
  shows "compareAskOrder dp a b =
           (if roundedQuotient dp (takerAmount a) (makerAmount a)
                 = roundedQuotient dp (takerAmount b) (makerAmount b)
            then Some 0 else Some (- 1))
       \<and> (makerAmount a * makerAmount b \<le> 10 ^ dp \<longrightarrow> compareAskOrder dp a b = Some (- 1))"
proof -
  have le: "roundedQuotient dp (takerAmount a) (makerAmount a)
      \<le> roundedQuotient dp (takerAmount b) (makerAmount b)"
    using assms(1,3) price by (intro roundedQuotient_mono) simp_all
  have "roundedQuotient dp (takerTokenFeeAmount a) (takerAmount a)
      = roundedQuotient dp (takerTokenFeeAmount b) (takerAmount b)"
    using assms(2,4) fee by (intro roundedQuotient_cong)
  then have tie: "compareOrderByFeeRatio dp a b = Some 0"
    using expiry by (simp add: compareOrderByFeeRatio_pos [OF assms(2,4)])
  have 1: "compareAskOrder dp a b =
           (if roundedQuotient dp (takerAmount a) (makerAmount a)
                 = roundedQuotient dp (takerAmount b) (makerAmount b)
            then Some 0 else Some (- 1))"
    using le tie by (simp add: compareAskOrder_pos [OF assms(1,3)])
  have 2: "compareAskOrder dp a b = Some (- 1)" if "makerAmount a * makerAmount b \<le> 10 ^ dp"
  proof -
    have "roundedQuotient dp (takerAmount a) (makerAmount a)
        < roundedQuotient dp (takerAmount b) (makerAmount b)"
      using assms(1,3) price that by (intro roundedQuotient_strict)
    then show ?thesis by (simp add: compareAskOrder_pos [OF assms(1,3)])
  qed
  from 1 2 show ?thesis by blast
qed

theorem price_dominance_within_precision_witness:
  "compareAskOrder 78 (sampleOrder ''0x10'' 100 90 0 1000) (sampleOrder ''0x11'' 100 95 0 1000) = Some (- 1)"
proof -
  let ?a = "sampleOrder ''0x10'' 100 90 0 1000" and ?b = "sampleOrder ''0x11'' 100 95 0 1000"
  have "0 < makerAmount ?a" "0 < takerAmount ?a" "0 < makerAmount ?b" "0 < takerAmount ?b"
    "takerTokenFeeAmount ?a * takerAmount ?b = takerTokenFeeAmount ?b * takerAmount ?a"
    "expiry ?a = expiry ?b"
    "takerAmount ?a * makerAmount ?b < takerAmount ?b * makerAmount ?a"
    by (simp_all add: sampleOrder_def)
  note inst = price_dominance_within_precision [OF this, of 78]
  have "makerAmount ?a * makerAmount ?b \<le> 10 ^ 78"
    by (simp add: sampleOrder_def)
  with inst show ?thesis by blast
qed

text \<open>
  As claim C3 is worded (for all positive amounts) it fails: the order with price \<open>1/3\<close> is
  strictly cheaper than the one with price \<open>(10 ^ 80 + 1) / (3 * 10 ^ 80)\<close>, fee rate and
  expiry are equal, and \<^verbatim>\<open>compareAskOrder\<close> returns \<open>0\<close>, not a negative number.
\<close>

theorem cheaper_order_not_first_counterexample:
  "0 < makerAmount (sampleOrder ''0x10'' 3 1 0 1000) \<and> 0 < takerAmount (sampleOrder ''0x10'' 3 1 0 1000)
   \<and> 0 < makerAmount (sampleOrder ''0x11'' (3 * 10 ^ 80) (10 ^ 80 + 1) 0 1000)
   \<and> 0 < takerAmount (sampleOrder ''0x11'' (3 * 10 ^ 80) (10 ^ 80 + 1) 0 1000)
   \<and> takerTokenFeeAmount (sampleOrder ''0x10'' 3 1 0 1000) * takerAmount (sampleOrder ''0x11'' (3 * 10 ^ 80) (10 ^ 80 + 1) 0 1000)
       = takerTokenFeeAmount (sampleOrder ''0x11'' (3 * 10 ^ 80) (10 ^ 80 + 1) 0 1000) * takerAmount (sampleOrder ''0x10'' 3 1 0 1000)
   \<and> expiry (sampleOrder ''0x10'' 3 1 0 1000) = expiry (sampleOrder ''0x11'' (3 * 10 ^ 80) (10 ^ 80 + 1) 0 1000)
   \<and> takerAmount (sampleOrder ''0x10'' 3 1 0 1000) * makerAmount (sampleOrder ''0x11'' (3 * 10 ^ 80) (10 ^ 80 + 1) 0 1000)
       < takerAmount (sampleOrder ''0x11'' (3 * 10 ^ 80) (10 ^ 80 + 1) 0 1000) * makerAmount (sampleOrder ''0x10'' 3 1 0 1000)
   \<and> compareAskOrder 78 (sampleOrder ''0x10'' 3 1 0 1000) (sampleOrder ''0x11'' (3 * 10 ^ 80) (10 ^ 80 + 1) 0 1000) = Some 0
   \<and> compareAskOrder 20 (sampleOrder ''0x10'' 3 1 0 1000) (sampleOrder ''0x11'' (3 * 10 ^ 80) (10 ^ 80 + 1) 0 1000) = Some 0"
  by (simp add: compareAskOrder_def compareOrderByFeeRatio_def bignumber_div_def roundedQuotient_def
      sampleOrder_def)

text \<open>
  Claim C4. On orders with positive maker and taker amounts, \<^verbatim>\<open>compareAskOrder\<close> and
  \<^verbatim>\<open>compareBidOrder\<close> are consistent comparators: an order compares as \<open>0\<close> with itself,
  swapping the arguments negates the result, and if \<open>a\<close> is not after \<open>b\<close> and \<open>b\<close> not
  after \<open>c\<close> then \<open>a\<close> is not after \<open>c\<close>; hence sorting a list of such orders a second time
  leaves it as the first sort made it.
\<close>

theorem comparators_consistent:
  assumes a: "0 < makerAmount a" "0 < takerAmount a"
    and b: "0 < makerAmount b" "0 < takerAmount b"
    and c: "0 < makerAmount c" "0 < takerAmount c"
  shows "compareAskOrder dp a a = Some 0
     \<and> (\<exists>n. compareAskOrder dp a b = Some n \<and> compareAskOrder dp b a = Some (- n))
     \<and> (\<exists>l m n. compareAskOrder dp a b = Some l \<and> compareAskOrder dp b c = Some m
           \<and> compareAskOrder dp a c = Some n \<and> (l \<le> 0 \<and> m \<le> 0 \<longrightarrow> n \<le> 0))
     \<and> compareBidOrder dp a a = Some 0
     \<and> (\<exists>n. compareBidOrder dp a b = Some n \<and> compareBidOrder dp b a = Some (- n))
     \<and> (\<exists>l m n. compareBidOrder dp a b = Some l \<and> compareBidOrder dp b c = Some m
           \<and> compareBidOrder dp a c = Some n \<and> (l \<le> 0 \<and> m \<le> 0 \<longrightarrow> n \<le> 0))
     \<and> (\<forall>xs. (\<forall>x \<in> set xs. 0 < makerAmount x \<and> 0 < takerAmount x) \<longrightarrow>
           sortBy (compareAskOrder dp) (sortBy (compareAskOrder dp) xs) = sortBy (compareAskOrder dp) xs
         \<and> sortBy (compareBidOrder dp) (sortBy (compareBidOrder dp) xs) = sortBy (compareBidOrder dp) xs)"
proof -
  have ask: "compareAskOrder dp x y = Some (lexCompare (askKey dp x) (askKey dp y))"
    and bid: "compareBidOrder dp x y = Some (lexCompare (bidKey dp x) (bidKey dp y))"
    if "x \<in> {a, b, c}" "y \<in> {a, b, c}" for x y
    using that a b c by (auto simp add: compareAskOrder_key compareBidOrder_key)
  have 1: "compareAskOrder dp a a = Some 0"
    by (simp add: ask lexCompare_refl)
  have 2: "\<exists>n. compareAskOrder dp a b = Some n \<and> compareAskOrder dp b a = Some (- n)"
    by (simp add: ask lexCompare_flip [of "askKey dp a" "askKey dp b"])
  have 3: "\<exists>l m n. compareAskOrder dp a b = Some l \<and> compareAskOrder dp b c = Some m
           \<and> compareAskOrder dp a c = Some n \<and> (l \<le> 0 \<and> m \<le> 0 \<longrightarrow> n \<le> 0)"
    using lexCompare_trans [of "askKey dp a" "askKey dp b" "askKey dp c"] by (simp add: ask)
  have 4: "compareBidOrder dp a a = Some 0"
    by (simp add: bid lexCompare_refl)
  have 5: "\<exists>n. compareBidOrder dp a b = Some n \<and> compareBidOrder dp b a = Some (- n)"
    by (simp add: bid lexCompare_flip [of "bidKey dp a" "bidKey dp b"])
  have 6: "\<exists>l m n. compareBidOrder dp a b = Some l \<and> compareBidOrder dp b c = Some m
           \<and> compareBidOrder dp a c = Some n \<and> (l \<le> 0 \<and> m \<le> 0 \<longrightarrow> n \<le> 0)"
    using lexCompare_trans [of "bidKey dp a" "bidKey dp b" "bidKey dp c"] by (simp add: bid)
  have 7: "\<forall>xs. (\<forall>x \<in> set xs. 0 < makerAmount x \<and> 0 < takerAmount x) \<longrightarrow>
           sortBy (compareAskOrder dp) (sortBy (compareAskOrder dp) xs) = sortBy (compareAskOrder dp) xs
         \<and> sortBy (compareBidOrder dp) (sortBy (compareBidOrder dp) xs) = sortBy (compareBidOrder dp) xs"
    using sortBy_ask_idem sortBy_bid_idem by blast
  from 1 2 3 4 5 6 7 show ?thesis by (intro conjI)
qed

theorem comparators_consistent_witness:
  "compareAskOrder 78 (sampleOrder ''0x10'' 100 90 0 1000) (sampleOrder ''0x10'' 100 90 0 1000) = Some 0
   \<and> compareBidOrder 78 (sampleOrder ''0x10'' 100 90 0 1000) (sampleOrder ''0x10'' 100 90 0 1000) = Some 0
   \<and> sortBy (compareAskOrder 78)
        (sortBy (compareAskOrder 78) [sampleOrder ''0x11'' 100 95 0 1000, sampleOrder ''0x10'' 100 90 0 1000])
       = sortBy (compareAskOrder 78) [sampleOrder ''0x11'' 100 95 0 1000, sampleOrder ''0x10'' 100 90 0 1000]"
proof -
  let ?a = "sampleOrder ''0x10'' 100 90 0 1000" and ?b = "sampleOrder ''0x11'' 100 95 0 1000"
  have pos: "0 < makerAmount ?a" "0 < takerAmount ?a" "0 < makerAmount ?b" "0 < takerAmount ?b"
    by (simp_all add: sampleOrder_def)
  note inst = comparators_consistent [OF pos(1,2) pos(3,4) pos(1,2), of 78]
  have "\<forall>x \<in> set [?b, ?a]. 0 < makerAmount x \<and> 0 < takerAmount x"
    using pos by simp
  with inst show ?thesis by blast
qed

section \<open>Pinning\<close>

lemma foldl_pushOrder:
  "foldl (pushOrder ms) res xs =
     \<lparr>pin = pin res @ filter (\<lambda>x. maker x \<in> set ms) xs,
      doNotPin = doNotPin res @ filter (\<lambda>x. maker x \<notin> set ms) xs\<rparr>"
  by (induction xs arbitrary: res) (simp_all add: pushOrder_def)

lemma collectMakerAddresses_eq:
  "collectMakerAddresses mm ids pools =
     mm @ concat (map maker_addresses (filter (\<lambda>p. pool_id p \<in> set ids) pools))"
  unfolding collectMakerAddresses_def
  by (induction pools arbitrary: mm) simp_all

lemma set_collectMakerAddresses:
  "set (collectMakerAddresses mm ids pools) =
     set mm \<union> (\<Union>p \<in> {p \<in> set pools. pool_id p \<in> set ids}. set (maker_addresses p))"
  by (auto simp add: collectMakerAddresses_eq)

lemma splitOrdersByPinningAsync_eq:
  "splitOrdersByPinningAsync mm ids poolsOutcome batch =
     Inr (loggedWarnings poolsOutcome,
          \<lparr>pin = filter (\<lambda>x. maker x \<in> set (collectMakerAddresses mm ids (fetchedPools poolsOutcome))) batch,
           doNotPin = filter (\<lambda>x. maker x \<notin> set (collectMakerAddresses mm ids (fetchedPools poolsOutcome))) batch\<rparr>)"
  by (simp add: splitOrdersByPinningAsync_def foldl_pushOrder fetchedPools_def loggedWarnings_def
      Let_def split: sum.splits option.splits)

text \<open>
  Claim C5. Whatever the batch and whatever the outcome of the pool fetch,
  \<^verbatim>\<open>splitOrdersByPinningAsync\<close> returns a result, and the result is a stable partition of
  the batch: \<open>pin\<close> and \<open>doNotPin\<close> together hold the orders of the batch with their
  multiplicities, their lengths add up to the length of the batch, no order is in both, and
  each of the two is the batch filtered by a predicate (\<open>doNotPin\<close> by its negation), so the
  orders keep the relative order they have in the batch.
\<close>

theorem splitOrdersByPinningAsync_stable_partition:
  "\<exists>warnings res. splitOrdersByPinningAsync mm ids poolsOutcome batch = Inr (warnings, res)
     \<and> mset (pin res) + mset (doNotPin res) = mset batch
     \<and> length (pin res) + length (doNotPin res) = length batch
     \<and> set (pin res) \<union> set (doNotPin res) = set batch
     \<and> set (pin res) \<inter> set (doNotPin res) = {}
     \<and> (\<exists>P. pin res = filter P batch \<and> doNotPin res = filter (\<lambda>x. \<not> P x) batch)"
proof -
  let ?P = "\<lambda>x. maker x \<in> set (collectMakerAddresses mm ids (fetchedPools poolsOutcome))"
  let ?res = "\<lparr>pin = filter ?P batch, doNotPin = filter (\<lambda>x. \<not> ?P x) batch\<rparr>"
  have "splitOrdersByPinningAsync mm ids poolsOutcome batch = Inr (loggedWarnings poolsOutcome, ?res)"
    by (rule splitOrdersByPinningAsync_eq)
  moreover have "mset (pin ?res) + mset (doNotPin ?res) = mset batch"
    by simp
  moreover have "length (pin ?res) + length (doNotPin ?res) = length batch"
    by (simp add: sum_length_filter_compl)
  moreover have "set (pin ?res) \<union> set (doNotPin ?res) = set batch"
    by auto
  moreover have "set (pin ?res) \<inter> set (doNotPin ?res) = {}"
    by auto
  moreover have "\<exists>P. pin ?res = filter P batch \<and> doNotPin ?res = filter (\<lambda>x. \<not> P x) batch"
    by auto
  ultimately show ?thesis by blast
qed

text \<open>
  Claim C6. An order goes to \<open>pin\<close> exactly when its maker is, as a string, an element of
  the reputation addresses: the allow-list together with the maker addresses of the fetched
  pools whose identifier is in the trusted list. Other pools contribute nothing, and the
  strings are compared as they are.
\<close>

theorem pinned_iff_maker_in_reputation_set:
  "\<exists>warnings res. splitOrdersByPinningAsync mm ids poolsOutcome batch = Inr (warnings, res)
     \<and> pin res = filter (\<lambda>x. maker x \<in> set mm \<union>
           (\<Union>p \<in> {p \<in> set (fetchedPools poolsOutcome). pool_id p \<in> set ids}. set (maker_addresses p))) batch
     \<and> doNotPin res = filter (\<lambda>x. maker x \<notin> set mm \<union>
           (\<Union>p \<in> {p \<in> set (fetchedPools poolsOutcome). pool_id p \<in> set ids}. set (maker_addresses p))) batch"
  by (simp add: splitOrdersByPinningAsync_eq set_collectMakerAddresses)

text \<open>
  An instance: the maker \<open>0xAB\<close> is not pinned by the allow-list entry \<open>0xab\<close>, and pool
  \<open>8\<close>, which is not trusted, pins nobody.
\<close>

lemma pinning_example:
  "splitOrdersByPinningAsync [''0xab''] [''7'']
     (Inr (Some [\<lparr>pool_id = ''7'', maker_addresses = [''0xcd'']\<rparr>,
                 \<lparr>pool_id = ''8'', maker_addresses = [''0xef'']\<rparr>]))
     [sampleOrder ''0xAB'' 1 1 0 1, sampleOrder ''0xcd'' 1 1 0 1,
      sampleOrder ''0xef'' 1 1 0 1, sampleOrder ''0xab'' 1 1 0 1]
   = Inr ([], \<lparr>pin = [sampleOrder ''0xcd'' 1 1 0 1, sampleOrder ''0xab'' 1 1 0 1],
               doNotPin = [sampleOrder ''0xAB'' 1 1 0 1, sampleOrder ''0xef'' 1 1 0 1]\<rparr>)"
  by (simp add: splitOrdersByPinningAsync_eq collectMakerAddresses_eq fetchedPools_def
      loggedWarnings_def sampleOrder_def)

text \<open>
  Claim C7. An order of the batch whose maker is in the allow-list is in \<open>pin\<close>, and not in
  \<open>doNotPin\<close>, for every outcome of the pool fetch: pools returned, nothing returned, or an
  error thrown.
\<close>

theorem allow_list_always_pinned:
  assumes "x \<in> set batch" "maker x \<in> set mm"
  shows "\<exists>warnings res. splitOrdersByPinningAsync mm ids poolsOutcome batch = Inr (warnings, res)
     \<and> x \<in> set (pin res) \<and> x \<notin> set (doNotPin res)"
  using assms by (simp add: splitOrdersByPinningAsync_eq set_collectMakerAddresses)

theorem allow_list_always_pinned_witness:
  "\<exists>warnings res. splitOrdersByPinningAsync [''0xab''] [''7''] (Inl ''connection refused'')
        [sampleOrder ''0xcd'' 1 1 0 1, sampleOrder ''0xab'' 1 1 0 1] = Inr (warnings, res)
     \<and> sampleOrder ''0xab'' 1 1 0 1 \<in> set (pin res) \<and> sampleOrder ''0xab'' 1 1 0 1 \<notin> set (doNotPin res)"
proof -
  have "sampleOrder ''0xab'' 1 1 0 1 \<in> set [sampleOrder ''0xcd'' 1 1 0 1, sampleOrder ''0xab'' 1 1 0 1]"
    by simp
  moreover have "maker (sampleOrder ''0xab'' 1 1 0 1) \<in> set [''0xab'']"
    by (simp add: sampleOrder_def)
  ultimately show ?thesis by (rule allow_list_always_pinned)
qed

text \<open>
  Claim C8. When the pool fetch throws, \<^verbatim>\<open>splitOrdersByPinningAsync\<close> does not throw: it
  logs one warning and returns the result that the allow-list alone gives, the same result
  as after a fetch that returned no pool.
\<close>

theorem fetch_failure_uses_allow_list_only:
  "\<exists>res. splitOrdersByPinningAsync mm ids (Inl error) batch
            = Inr ([''stakingPoolsQuery threw an error: '' @ error], res)
     \<and> splitOrdersByPinningAsync mm ids (Inr (Some [])) batch = Inr ([], res)
     \<and> pin res = filter (\<lambda>x. maker x \<in> set mm) batch
     \<and> doNotPin res = filter (\<lambda>x. maker x \<notin> set mm) batch"
  by (simp add: splitOrdersByPinningAsync_eq collectMakerAddresses_eq fetchedPools_def loggedWarnings_def)

section \<open>The pool cache\<close>

lemma getPoolsAsync_cases:
  assumes "pinStateOk st" "getPoolsAsync now query st = (outcome, st')"
  shows "pinStateOk st'"
    and "lastFetch st = None \<or> (\<exists>pools t. lastFetch st = Some (pools, t) \<and> TEN_MINUTES_MS < now - t)
           \<Longrightarrow> queryCount st' = queryCount st + 1 \<and> outcome = query"
    and "lastFetch st = Some (pools, t) \<Longrightarrow> now - t \<le> TEN_MINUTES_MS
           \<Longrightarrow> queryCount st' = queryCount st \<and> outcome = Inr pools \<and> lastFetch st' = lastFetch st"
    and "query = Inr pools' \<Longrightarrow> queryCount st' = queryCount st + 1 \<Longrightarrow> lastFetch st' = Some (pools', now)"
  using assms
  by (auto simp add: getPoolsAsync_def getResultAsync_def needsFetch_def pinStateOk_def lastFetch_def
      createResultCache_def Let_def split: option.splits sum.splits prod.splits if_splits)

lemma call_getPoolsAsync:
  assumes "splitOrdersByPinningAsync_call mm ids now query batch st = (out, st')"
  obtains outcome where "getPoolsAsync now query st = (outcome, st')"
    and "out = splitOrdersByPinningAsync mm ids outcome batch"
  using assms by (auto simp add: splitOrdersByPinningAsync_call_def split: prod.splits)

lemma pinStateOk_initial: "pinStateOk initialPinState" "lastFetch initialPinState = None"
    "queryCount initialPinState = 0"
  by (simp_all add: pinStateOk_def initialPinState_def lastFetch_def)

text \<open>
  Claim C9, on the cache as the spec describes it. Of two successive calls, the second
  does not run the pool query when the cache holds an entry that is at most ten minutes old,
  and it then classifies with the cached pools; it runs the query (once) exactly when the
  cache holds no entry or the entry is older than ten minutes. In particular, after a first
  call that fetched the pools successfully, a second call within ten minutes is served by
  that one fetch.
\<close>

theorem cache_serves_calls_within_refresh_interval:
  assumes ok: "pinStateOk st"
    and c1: "splitOrdersByPinningAsync_call mm ids now1 query1 batch1 st = (out1, st1)"
    and c2: "splitOrdersByPinningAsync_call mm ids now2 query2 batch2 st1 = (out2, st2)"
  shows "(\<forall>pools t. lastFetch st1 = Some (pools, t) \<and> now2 - t \<le> TEN_MINUTES_MS \<longrightarrow>
            queryCount st2 = queryCount st1
            \<and> out2 = splitOrdersByPinningAsync mm ids (Inr pools) batch2)
     \<and> (queryCount st2 = queryCount st1 + 1 \<longleftrightarrow>
            lastFetch st1 = None
            \<or> (\<exists>pools t. lastFetch st1 = Some (pools, t) \<and> TEN_MINUTES_MS < now2 - t))
     \<and> (queryCount st2 = queryCount st1 \<or> queryCount st2 = queryCount st1 + 1)
     \<and> ((\<exists>pools. query1 = Inr pools) \<and> queryCount st1 = queryCount st + 1
            \<and> now2 - now1 \<le> TEN_MINUTES_MS \<longrightarrow>
            queryCount st2 = queryCount st1
            \<and> out2 = splitOrdersByPinningAsync mm ids query1 batch2)
     \<and> (st = initialPinState \<longrightarrow> queryCount st1 = 1)"
proof -
  from c1 obtain outcome1 where g1: "getPoolsAsync now1 query1 st = (outcome1, st1)"
    and o1: "out1 = splitOrdersByPinningAsync mm ids outcome1 batch1"
    by (rule call_getPoolsAsync)
  from c2 obtain outcome2 where g2: "getPoolsAsync now2 query2 st1 = (outcome2, st2)"
    and o2: "out2 = splitOrdersByPinningAsync mm ids outcome2 batch2"
    by (rule call_getPoolsAsync)
  note ok1 = getPoolsAsync_cases(1) [OF ok g1]
  note first = getPoolsAsync_cases(2-4) [OF ok g1]
  note second = getPoolsAsync_cases(2-4) [OF ok1 g2]
  have fresh: "queryCount st2 = queryCount st1 \<and> out2 = splitOrdersByPinningAsync mm ids (Inr pools) batch2"
    if "lastFetch st1 = Some (pools, t)" "now2 - t \<le> TEN_MINUTES_MS" for pools t
    using second(2) [OF that] o2 by simp
  have stale: "queryCount st2 = queryCount st1 + 1"
    if "lastFetch st1 = None \<or> (\<exists>pools t. lastFetch st1 = Some (pools, t) \<and> TEN_MINUTES_MS < now2 - t)"
    using second(1) [OF that] by simp
  have split: "lastFetch st1 = None
      \<or> (\<exists>pools t. lastFetch st1 = Some (pools, t) \<and> TEN_MINUTES_MS < now2 - t)
      \<or> (\<exists>pools t. lastFetch st1 = Some (pools, t) \<and> now2 - t \<le> TEN_MINUTES_MS)"
    by (cases "lastFetch st1") (auto simp add: not_less)
  have A: "\<forall>pools t. lastFetch st1 = Some (pools, t) \<and> now2 - t \<le> TEN_MINUTES_MS \<longrightarrow>
            queryCount st2 = queryCount st1
            \<and> out2 = splitOrdersByPinningAsync mm ids (Inr pools) batch2"
    using fresh by blast
  have B: "queryCount st2 = queryCount st1 + 1 \<longleftrightarrow>
            lastFetch st1 = None
            \<or> (\<exists>pools t. lastFetch st1 = Some (pools, t) \<and> TEN_MINUTES_MS < now2 - t)"
  proof
    assume inc: "queryCount st2 = queryCount st1 + 1"
    show "lastFetch st1 = None
            \<or> (\<exists>pools t. lastFetch st1 = Some (pools, t) \<and> TEN_MINUTES_MS < now2 - t)"
    proof (rule ccontr)
      assume "\<not> ?thesis"
      with split obtain pools t where "lastFetch st1 = Some (pools, t)" "now2 - t \<le> TEN_MINUTES_MS"
        by blast
      from fresh [OF this] inc show False by simp
    qed
  next
    assume "lastFetch st1 = None
            \<or> (\<exists>pools t. lastFetch st1 = Some (pools, t) \<and> TEN_MINUTES_MS < now2 - t)"
    then show "queryCount st2 = queryCount st1 + 1" by (rule stale)
  qed
  have C: "queryCount st2 = queryCount st1 \<or> queryCount st2 = queryCount st1 + 1"
    using split fresh stale by blast
  have D: "queryCount st2 = queryCount st1 \<and> out2 = splitOrdersByPinningAsync mm ids query1 batch2"
    if "\<exists>pools. query1 = Inr pools" "queryCount st1 = queryCount st + 1" "now2 - now1 \<le> TEN_MINUTES_MS"
  proof -
    from that(1) obtain pools where q: "query1 = Inr pools" by blast
    from first(3) [OF q that(2)] have "lastFetch st1 = Some (pools, now1)" .
    from fresh [OF this that(3)] q show ?thesis by simp
  qed
  have E: "queryCount st1 = 1" if "st = initialPinState"
    using first(1) that by (simp add: pinStateOk_initial)
  from A B C D E show ?thesis by blast
qed

theorem cache_serves_calls_within_refresh_interval_witness:
  "queryCount (snd (splitOrdersByPinningAsync_call [''0xab''] [''7''] 1000 (Inl ''connection refused'') []
      (snd (splitOrdersByPinningAsync_call [''0xab''] [''7''] 0
         (Inr (Some [\<lparr>pool_id = ''7'', maker_addresses = [''0xcd'']\<rparr>])) [] initialPinState)))) = 1
   \<and> fst (splitOrdersByPinningAsync_call [''0xab''] [''7''] 1000 (Inl ''connection refused'') [sampleOrder ''0xcd'' 1 1 0 1]
      (snd (splitOrdersByPinningAsync_call [''0xab''] [''7''] 0
         (Inr (Some [\<lparr>pool_id = ''7'', maker_addresses = [''0xcd'']\<rparr>])) [] initialPinState)))
     = splitOrdersByPinningAsync [''0xab''] [''7''] (Inr (Some [\<lparr>pool_id = ''7'', maker_addresses = [''0xcd'']\<rparr>]))
         [sampleOrder ''0xcd'' 1 1 0 1]"
proof -
  let ?q1 = "Inr (Some [\<lparr>pool_id = ''7'', maker_addresses = [''0xcd'']\<rparr>]) :: string + RawPool list option"
  let ?c1 = "splitOrdersByPinningAsync_call [''0xab''] [''7''] 0 ?q1 [] initialPinState"
  let ?c2 = "splitOrdersByPinningAsync_call [''0xab''] [''7''] 1000 (Inl ''connection refused'')
      [sampleOrder ''0xcd'' 1 1 0 1] (snd ?c1)"
  let ?c2' = "splitOrdersByPinningAsync_call [''0xab''] [''7''] 1000 (Inl ''connection refused'')
      [] (snd ?c1)"
  have e1: "?c1 = (fst ?c1, snd ?c1)" and e2: "?c2 = (fst ?c2, snd ?c2)" and e2': "?c2' = (fst ?c2', snd ?c2')"
    by simp_all
  have h: "(\<exists>pools. ?q1 = Inr pools) \<and> queryCount (snd ?c1) = queryCount initialPinState + 1
      \<and> (1000::int) - 0 \<le> TEN_MINUTES_MS"
    using cache_serves_calls_within_refresh_interval [OF pinStateOk_initial(1) e1 e2]
    by (simp add: TEN_MINUTES_MS_def pinStateOk_initial)
  from cache_serves_calls_within_refresh_interval [OF pinStateOk_initial(1) e1 e2] h
  have a: "fst ?c2 = splitOrdersByPinningAsync [''0xab''] [''7''] ?q1 [sampleOrder ''0xcd'' 1 1 0 1]"
    by blast
  from cache_serves_calls_within_refresh_interval [OF pinStateOk_initial(1) e1 e2'] h
  have "queryCount (snd ?c2') = queryCount (snd ?c1)" and "queryCount (snd ?c1) = 1"
    by blast+
  with a show ?thesis by simp
qed

section \<open>Signature strings\<close>

lemma of_char_digitChar:
  assumes "d < 10"
  shows "(of_char (digitChar d) :: nat) = 48 + d"
proof -
  from assms have "d = 0 \<or> d = 1 \<or> d = 2 \<or> d = 3 \<or> d = 4 \<or> d = 5 \<or> d = 6 \<or> d = 7 \<or> d = 8 \<or> d = 9"
    by arith
  then show ?thesis
    by (elim disjE) (simp_all add: digitChar_def)
qed

lemma isDigit_digitChar: "d < 10 \<Longrightarrow> isDigit (digitChar d)"
  by (simp add: isDigit_def of_char_digitChar)

lemma decimal_small: "n < 10 \<Longrightarrow> decimal n = [digitChar n]"
  by (subst decimal.simps) simp

lemma decimal_large: "\<not> n < 10 \<Longrightarrow> decimal n = decimal (n div 10) @ [digitChar (n mod 10)]"
  by (subst decimal.simps) simp

lemma isDigit_decimal: "c \<in> set (decimal n) \<Longrightarrow> isDigit c"
proof (induction n arbitrary: c rule: decimal.induct)
  case (1 n)
  show ?case
  proof (cases "n < 10")
    case True
    with "1.prems" show ?thesis by (simp add: decimal_small isDigit_digitChar)
  next
    case False
    with "1.prems" have "c \<in> set (decimal (n div 10)) \<or> c = digitChar (n mod 10)"
      by (auto simp add: decimal_large)
    then show ?thesis
      using "1.IH" [OF False] by (auto simp add: isDigit_digitChar)
  qed
qed

lemma decimal_nonempty: "decimal n \<noteq> []"
  by (cases "n < 10") (simp_all add: decimal_small decimal_large)

lemma digitsValue_snoc: "digitsValue (ds @ [c]) = 10 * digitsValue ds + (of_char c - of_char CHR ''0'')"
  by (simp add: digitsValue_def)

lemma digitsValue_decimal: "digitsValue (decimal n) = n"
proof (induction n rule: decimal.induct)
  case (1 n)
  show ?case
  proof (cases "n < 10")
    case True
    then show ?thesis by (simp add: decimal_small digitsValue_def of_char_digitChar)
  next
    case False
    then show ?thesis
      using "1.IH" [OF False] by (simp add: decimal_large digitsValue_snoc of_char_digitChar)
  qed
qed

lemma less_power_length_decimal: "n < 10 ^ length (decimal n)"
proof (induction n rule: decimal.induct)
  case (1 n)
  show ?case
  proof (cases "n < 10")
    case True
    then show ?thesis by (simp add: decimal_small)
  next
    case False
    from "1.IH" [OF False] have "n div 10 + 1 \<le> 10 ^ length (decimal (n div 10))" by simp
    then have "10 * (n div 10 + 1) \<le> 10 * 10 ^ length (decimal (n div 10))"
      by (rule mult_le_mono2)
    moreover have "n < 10 * (n div 10 + 1)" by simp
    ultimately show ?thesis using False by (simp add: decimal_large)
  qed
qed

lemma length_decimal_le: "n < 10 ^ j \<Longrightarrow> 0 < j \<Longrightarrow> length (decimal n) \<le> j"
proof (induction n arbitrary: j rule: decimal.induct)
  case (1 n)
  show ?case
  proof (cases "n < 10")
    case True
    with "1.prems" show ?thesis by (simp add: decimal_small)
  next
    case False
    from "1.prems" obtain i where j: "j = Suc i" by (cases j) auto
    have "0 < i"
    proof (rule ccontr)
      assume "\<not> 0 < i"
      with j "1.prems" False show False by simp
    qed
    moreover from "1.prems" j have "n div 10 < 10 ^ i"
      by (simp add: less_mult_imp_div_less mult.commute)
    ultimately have "length (decimal (n div 10)) \<le> i"
      using "1.IH" [OF False] by simp
    with False j show ?thesis by (simp add: decimal_large)
  qed
qed

lemma isDigit_plain:
  assumes "isDigit c"
  shows "c \<noteq> CHR '',''" "c \<noteq> CHR ''-''" "c \<noteq> CHR ''+''" "\<not> isWhiteSpace c"
  using assms by (auto simp add: isDigit_def isWhiteSpace_def)

lemma takeWhile_isDigit_decimal: "takeWhile isDigit (decimal n) = decimal n"
  by (simp add: isDigit_decimal)

lemma parseInt10_decimal:
  assumes "roundToDouble w = Some m"
  shows "parseInt10 (Some (decimal w)) = JsInt (int m)"
proof -
  obtain c cs where ds: "decimal w = c # cs"
    using decimal_nonempty [of w] by (cases "decimal w") auto
  then have c: "isDigit c" using isDigit_decimal [of c w] by simp
  have "takeWhile isDigit (c # cs) = c # cs"
    using takeWhile_isDigit_decimal [of w] ds by simp
  with c have tw: "takeWhile isDigit cs = cs" by simp
  have val: "digitsValue (c # cs) = w"
    using digitsValue_decimal [of w] ds by simp
  show ?thesis
    using isDigit_plain [OF c] assms
    by (simp add: parseInt10_def ds Let_def c tw val)
qed

lemma parseInt10_minus_decimal:
  assumes "roundToDouble w = Some m"
  shows "parseInt10 (Some (CHR ''-'' # decimal w)) = JsInt (- int m)"
proof -
  have "\<not> isWhiteSpace CHR ''-''" by (simp add: isWhiteSpace_def)
  then show ?thesis
    using digitsValue_decimal [of w] assms
    by (simp add: parseInt10_def Let_def takeWhile_isDigit_decimal decimal_nonempty)
qed

lemma nearestDecimals_le:
  assumes "0 < k" "k < length (decimal m)" "w \<in> set (nearestDecimals m k)"
  shows "w \<le> 10 ^ length (decimal m)"
proof -
  let ?n = "length (decimal m)"
  let ?p = "10 ^ (?n - k) :: nat"
  have split: "(10::nat) ^ ?n = 10 ^ k * ?p"
    using assms(2) by (simp add: power_add [symmetric])
  have "m < 10 ^ k * ?p"
    using less_power_length_decimal [of m] by (simp only: split)
  then have "m div ?p < 10 ^ k"
    by (rule less_mult_imp_div_less)
  then have "m div ?p + 1 \<le> 10 ^ k" by simp
  then have "(m div ?p + 1) * ?p \<le> 10 ^ k * ?p"
    by (rule mult_le_mono1)
  then have hi: "m div ?p * ?p + ?p \<le> 10 ^ ?n"
    by (simp add: split)
  from assms(3) have "w = m div ?p * ?p \<or> w = m div ?p * ?p + ?p"
    by (auto simp add: nearestDecimals_def Let_def split: if_splits)
  with hi show ?thesis by auto
qed

lemma shortestDecimal_cases:
  "shortestDecimal m = m
   \<or> (roundToDouble (shortestDecimal m) = Some m
       \<and> (\<exists>k. 0 < k \<and> k < length (decimal m) \<and> shortestDecimal m \<in> set (nearestDecimals m k)))"
proof (cases "List.find (\<lambda>w. roundToDouble w = Some m)
             (concat (map (nearestDecimals m) [1..<length (decimal m)]))")
  case None
  then show ?thesis by (simp add: shortestDecimal_def)
next
  case (Some w)
  then have w: "shortestDecimal m = w" by (simp add: shortestDecimal_def)
  let ?ws = "concat (map (nearestDecimals m) [1..<length (decimal m)])"
  from Some obtain i where i: "i < length ?ws" "roundToDouble (?ws ! i) = Some m" "w = ?ws ! i"
    unfolding find_Some_iff by blast
  have "w \<in> set ?ws" using i(1) unfolding i(3) by (rule nth_mem)
  then obtain k where "0 < k" "k < length (decimal m)" "w \<in> set (nearestDecimals m k)"
    by (auto simp add: Suc_le_eq)
  with i(2,3) show ?thesis unfolding w by blast
qed

lemma roundToDouble_shortestDecimal:
  assumes "roundToDouble m = Some m"
  shows "roundToDouble (shortestDecimal m) = Some m"
  using shortestDecimal_cases [of m] assms by auto

lemma bitLength_pos: "0 < n \<Longrightarrow> bitLength n = Suc (bitLength (n div 2))"
  by (subst bitLength.simps) simp

lemma bitLength_0: "bitLength 0 = 0"
  by (subst bitLength.simps) simp

lemma roundToDouble_ten_21: "roundToDouble (10 ^ 21) = Some (10 ^ 21)"
  by (simp add: roundToDouble_def bitLength_pos bitLength_0 Let_def)

lemma shortestDecimal_plain:
  assumes "roundToDouble m = Some m" "m < 10 ^ 21"
  shows "shortestDecimal m < 10 ^ 21"
proof -
  from shortestDecimal_cases [of m] show ?thesis
  proof
    assume "shortestDecimal m = m"
    with assms(2) show ?thesis by simp
  next
    assume "roundToDouble (shortestDecimal m) = Some m
       \<and> (\<exists>k. 0 < k \<and> k < length (decimal m) \<and> shortestDecimal m \<in> set (nearestDecimals m k))"
    then obtain k where rt: "roundToDouble (shortestDecimal m) = Some m"
      and k: "0 < k" "k < length (decimal m)" "shortestDecimal m \<in> set (nearestDecimals m k)"
      by blast
    have "length (decimal m) \<le> 21"
      using assms(2) by (rule length_decimal_le) simp
    then have "(10::nat) ^ length (decimal m) \<le> 10 ^ 21"
      by (rule power_increasing) simp
    with nearestDecimals_le [OF k] have le: "shortestDecimal m \<le> 10 ^ 21" by simp
    have "shortestDecimal m \<noteq> 10 ^ 21"
    proof
      assume "shortestDecimal m = 10 ^ 21"
      with rt have "roundToDouble (10 ^ 21) = Some m" by simp
      with roundToDouble_ten_21 assms(2) show False by simp
    qed
    with le show ?thesis by simp
  qed
qed

lemma parseInt10_number_toString:
  assumes "isDouble n" "\<bar>n\<bar> < 10 ^ 21"
  shows "parseInt10 (Some (number_toString n)) = JsInt n"
proof -
  define m where "m = nat \<bar>n\<bar>"
  define w where "w = shortestDecimal m"
  from assms(1) have d: "roundToDouble m = Some m" by (simp add: isDouble_def m_def)
  from assms(2) have "m < 10 ^ 21" by (simp add: m_def nat_less_iff)
  with d have plain: "w < 10 ^ 21" unfolding w_def by (rule shortestDecimal_plain)
  have reads: "roundToDouble w = Some m"
    unfolding w_def by (rule roundToDouble_shortestDecimal [OF d])
  have str: "number_toString n = (if n < 0 then ''-'' else []) @ decimal w"
    unfolding number_toString_def m_def [symmetric] w_def [symmetric] Let_def
    using plain by simp
  show ?thesis
  proof (cases "n < 0")
    case True
    then have "- int m = n" by (simp add: m_def)
    with True show ?thesis
      by (simp add: str parseInt10_minus_decimal [OF reads])
  next
    case False
    then have "int m = n" by (simp add: m_def)
    with False show ?thesis
      by (simp add: str parseInt10_decimal [OF reads])
  qed
qed

lemma set_stripTrailingZeros: "set (stripTrailingZeros ds) \<subseteq> set ds"
  using set_dropWhileD [of _ "\<lambda>c. c = CHR ''0''" "rev ds"]
  by (auto simp add: stripTrailingZeros_def)

lemma comma_free_decimal: "CHR '','' \<notin> set (decimal n)"
  using isDigit_decimal isDigit_plain(1) by blast

lemma comma_free_exponential: "CHR '','' \<notin> set (exponential n)"
proof -
  obtain c cs where ds: "decimal n = c # cs"
    using decimal_nonempty [of n] by (cases "decimal n") auto
  have "CHR '','' \<notin> set (c # cs)" using comma_free_decimal [of n] ds by simp
  then have "c \<noteq> CHR '',''" "CHR '','' \<notin> set (stripTrailingZeros cs)"
    using set_stripTrailingZeros [of cs] by auto
  then show ?thesis
    using comma_free_decimal [of "length cs"]
    by (auto simp add: exponential_def ds Let_def)
qed

lemma comma_free_number_toString: "CHR '','' \<notin> set (number_toString n)"
  by (simp add: number_toString_def Let_def comma_free_decimal comma_free_exponential)

lemma split_comma_nonempty: "split_comma xs \<noteq> []"
  by (induction xs) (auto split: list.splits)

lemma split_comma_plain: "CHR '','' \<notin> set xs \<Longrightarrow> split_comma xs = [xs]"
  by (induction xs) auto

lemma split_comma_append:
  "CHR '','' \<notin> set xs \<Longrightarrow> split_comma (xs @ CHR '','' # ys) = xs # split_comma ys"
  by (induction xs) auto

lemma hd_split_comma: "hd (split_comma xs) = takeWhile (\<lambda>c. c \<noteq> CHR '','') xs"
  by (induction xs) (auto split: list.splits simp add: split_comma_nonempty)

lemma comma_free_split_comma: "f \<in> set (split_comma xs) \<Longrightarrow> CHR '','' \<notin> set f"
proof (induction xs arbitrary: f)
  case Nil
  then show ?case by simp
next
  case (Cons c cs)
  show ?case
  proof (cases "c = CHR '',''")
    case True
    with Cons show ?thesis by auto
  next
    case False
    obtain g gs where sp: "split_comma cs = g # gs"
      using split_comma_nonempty [of cs] by (cases "split_comma cs") auto
    with Cons.prems False have "f = c # g \<or> f \<in> set gs" by simp
    then show ?thesis
      using Cons.IH [of g] Cons.IH [of f] sp False by auto
  qed
qed

lemma serializeSignature_eq:
  "serializeSignature sig =
     number_toString (signatureType sig) @ CHR '','' # r sig @ CHR '','' # s sig
       @ CHR '','' # number_toString (v sig)"
  by (simp add: serializeSignature_def join_comma_def)

lemma split_serializeSignature:
  assumes "CHR '','' \<notin> set (r sig)" "CHR '','' \<notin> set (s sig)"
  shows "split_comma (serializeSignature sig) =
     [number_toString (signatureType sig), r sig, s sig, number_toString (v sig)]"
  using assms
  by (simp add: serializeSignature_eq split_comma_append split_comma_plain comma_free_number_toString)

lemma roundtrip:
  assumes "CHR '','' \<notin> set (r sig)" "CHR '','' \<notin> set (s sig)"
    and "isDouble (signatureType sig)" "\<bar>signatureType sig\<bar> < 10 ^ 21"
    and "isDouble (v sig)" "\<bar>v sig\<bar> < 10 ^ 21"
  shows "deserializeSignature (serializeSignature sig) = Inr sig"
  by (simp add: deserializeSignature_def split_serializeSignature [OF assms(1,2)] arrayItem_def
      parseInt10_number_toString [OF assms(3,4)] parseInt10_number_toString [OF assms(5,6)])

lemma deserializeSignature_InrD:
  assumes "deserializeSignature str = Inr sig"
  shows "arrayItem (split_comma str) 1 = Some (r sig)" "arrayItem (split_comma str) 2 = Some (s sig)"
  using assms
  by (auto simp add: deserializeSignature_def Let_def split: option.splits jsnumber.splits)

lemma takeWhile_stops_at_comma:
  assumes "CHR '','' \<in> set xs"
  shows "takeWhile (\<lambda>c. c \<noteq> CHR '','') (xs @ ys) \<noteq> xs"
proof -
  have "takeWhile (\<lambda>c. c \<noteq> CHR '','') (xs @ ys) = takeWhile (\<lambda>c. c \<noteq> CHR '','') xs"
    using assms by (simp add: takeWhile_append1)
  moreover have "takeWhile (\<lambda>c. c \<noteq> CHR '','') xs \<noteq> xs"
    using assms by (simp add: takeWhile_eq_all_conv)
  ultimately show ?thesis by simp
qed

lemma arrayItem_Cons_Suc: "arrayItem (x # xs) (Suc i) = arrayItem xs i"
  by (simp add: arrayItem_def)

lemma arrayItem_split_0: "arrayItem (split_comma xs) 0 = Some (takeWhile (\<lambda>c. c \<noteq> CHR '','') xs)"
  using split_comma_nonempty [of xs] hd_split_comma [of xs]
  by (cases "split_comma xs") (simp_all add: arrayItem_def)

lemma roundtrip_fails_on_comma:
  assumes "CHR '','' \<in> set (r sig) \<or> CHR '','' \<in> set (s sig)"
  shows "deserializeSignature (serializeSignature sig) \<noteq> Inr sig"
proof
  assume eq: "deserializeSignature (serializeSignature sig) = Inr sig"
  let ?T = "number_toString (signatureType sig)" and ?V = "number_toString (v sig)"
  have parts: "split_comma (serializeSignature sig)
      = ?T # split_comma (r sig @ CHR '','' # s sig @ CHR '','' # ?V)"
    by (simp add: serializeSignature_eq split_comma_append comma_free_number_toString)
  show False
  proof (cases "CHR '','' \<in> set (r sig)")
    case True
    have "arrayItem (split_comma (serializeSignature sig)) (Suc 0)
        = Some (takeWhile (\<lambda>c. c \<noteq> CHR '','') (r sig @ CHR '','' # s sig @ CHR '','' # ?V))"
      by (simp only: parts arrayItem_Cons_Suc arrayItem_split_0)
    with deserializeSignature_InrD(1) [OF eq]
    have "takeWhile (\<lambda>c. c \<noteq> CHR '','') (r sig @ CHR '','' # s sig @ CHR '','' # ?V) = r sig"
      by simp
    with takeWhile_stops_at_comma [OF True] show False by blast
  next
    case False
    with assms have comma: "CHR '','' \<in> set (s sig)" by simp
    have "split_comma (serializeSignature sig)
        = ?T # r sig # split_comma (s sig @ CHR '','' # ?V)"
      using False by (simp add: parts split_comma_append)
    then have "arrayItem (split_comma (serializeSignature sig)) (Suc (Suc 0))
        = Some (takeWhile (\<lambda>c. c \<noteq> CHR '','') (s sig @ CHR '','' # ?V))"
      by (simp only: arrayItem_Cons_Suc arrayItem_split_0)
    with deserializeSignature_InrD(2) [OF eq]
    have "takeWhile (\<lambda>c. c \<noteq> CHR '','') (s sig @ CHR '','' # ?V) = s sig"
      by (simp add: numeral_2_eq_2)
    with takeWhile_stops_at_comma [OF comma] show False by blast
  qed
qed

lemma arrayItem_SomeD: "arrayItem parts i = Some x \<Longrightarrow> x \<in> set parts"
  by (auto simp add: arrayItem_def split: if_splits)

lemma serialize_other_field_count:
  assumes "deserializeSignature str = Inr sig" "length (split_comma str) \<noteq> 4"
  shows "serializeSignature sig \<noteq> str"
proof
  assume eq: "serializeSignature sig = str"
  have "CHR '','' \<notin> set (r sig)" "CHR '','' \<notin> set (s sig)"
    using deserializeSignature_InrD [OF assms(1)]
    by (auto dest!: arrayItem_SomeD comma_free_split_comma)
  then have "length (split_comma (serializeSignature sig)) = 4"
    by (simp add: split_serializeSignature)
  with eq assms(2) show False by simp
qed

lemma isDouble_small: "\<bar>n\<bar> < 2 ^ 53 \<Longrightarrow> isDouble n"
  by (simp add: isDouble_def roundToDouble_def nat_less_iff)

text \<open>
  Claim C10, as the code has it. For a signature whose \<open>r\<close> and \<open>s\<close> contain no comma and
  whose \<open>signatureType\<close> and \<open>v\<close> are integers (integer-valued numbers of JavaScript) of
  magnitude below \<open>10 ^ 21\<close>, deserializing the serialization gives the signature back.
  When \<open>r\<close> or \<open>s\<close> contains a comma it does not. And a string whose number of
  comma-separated fields is not four is never the serialization of what it deserializes to.
\<close>

theorem signature_roundtrip:
  "(CHR '','' \<notin> set (r sig) \<and> CHR '','' \<notin> set (s sig)
      \<and> isDouble (signatureType sig) \<and> \<bar>signatureType sig\<bar> < 10 ^ 21
      \<and> isDouble (v sig) \<and> \<bar>v sig\<bar> < 10 ^ 21
      \<longrightarrow> deserializeSignature (serializeSignature sig) = Inr sig)
   \<and> (CHR '','' \<in> set (r sig) \<or> CHR '','' \<in> set (s sig)
      \<longrightarrow> deserializeSignature (serializeSignature sig) \<noteq> Inr sig)
   \<and> (deserializeSignature str = Inr sig' \<and> length (split_comma str) \<noteq> 4
      \<longrightarrow> serializeSignature sig' \<noteq> str)"
  using roundtrip [of sig] roundtrip_fails_on_comma [of sig] serialize_other_field_count [of str sig']
  by blast

theorem signature_roundtrip_witness:
  "deserializeSignature (serializeSignature sampleSignature) = Inr sampleSignature
   \<and> deserializeSignature (serializeSignature \<lparr>signatureType = 2, r = ''0xaa'', s = ''0xbb'', v = 2 ^ 60\<rparr>)
       = Inr \<lparr>signatureType = 2, r = ''0xaa'', s = ''0xbb'', v = 2 ^ 60\<rparr>
   \<and> deserializeSignature (serializeSignature \<lparr>signatureType = 2, r = ''0xa,a'', s = ''0xbb'', v = 27\<rparr>)
       \<noteq> Inr \<lparr>signatureType = 2, r = ''0xa,a'', s = ''0xbb'', v = 27\<rparr>
   \<and> serializeSignature \<lparr>signatureType = 2, r = ''0xaa'', s = ''0xbb'', v = 27\<rparr> \<noteq> ''2,0xaa,0xbb,27,28''"
proof -
  let ?big = "\<lparr>signatureType = 2, r = ''0xaa'', s = ''0xbb'', v = 2 ^ 60\<rparr>"
  let ?comma = "\<lparr>signatureType = 2, r = ''0xa,a'', s = ''0xbb'', v = 27\<rparr>"
  let ?plain = "\<lparr>signatureType = 2, r = ''0xaa'', s = ''0xbb'', v = 27\<rparr>"
  have 1: "CHR '','' \<notin> set (r sampleSignature) \<and> CHR '','' \<notin> set (s sampleSignature)
      \<and> isDouble (signatureType sampleSignature) \<and> \<bar>signatureType sampleSignature\<bar> < 10 ^ 21
      \<and> isDouble (v sampleSignature) \<and> \<bar>v sampleSignature\<bar> < 10 ^ 21"
    by (simp add: sampleSignature_def isDouble_small)
  have "isDouble (2 ^ 60)"
    by (simp add: isDouble_def roundToDouble_def bitLength_pos bitLength_0 Let_def)
  then have 2: "CHR '','' \<notin> set (r ?big) \<and> CHR '','' \<notin> set (s ?big)
      \<and> isDouble (signatureType ?big) \<and> \<bar>signatureType ?big\<bar> < 10 ^ 21
      \<and> isDouble (v ?big) \<and> \<bar>v ?big\<bar> < 10 ^ 21"
    by (simp add: isDouble_small)
  have 3: "CHR '','' \<in> set (r ?comma) \<or> CHR '','' \<in> set (s ?comma)"
    by simp
  have 4: "deserializeSignature ''2,0xaa,0xbb,27,28'' = Inr ?plain
      \<and> length (split_comma ''2,0xaa,0xbb,27,28'') \<noteq> 4"
    by (simp add: deserializeSignature_def arrayItem_def parseInt10_def isWhiteSpace_def isDigit_def
        digitsValue_def roundToDouble_def Let_def)
  from 1 2 3 4
    signature_roundtrip [of sampleSignature "''2,0xaa,0xbb,27,28''" ?plain]
    signature_roundtrip [of ?big "''2,0xaa,0xbb,27,28''" ?plain]
    signature_roundtrip [of ?comma "''2,0xaa,0xbb,27,28''" ?plain]
  show ?thesis by blast
qed

text \<open>
  As claim C10 is worded (for all integers) it fails: from \<open>10 ^ 21\<close> on a number is
  written in exponent notation, of which \<^verbatim>\<open>parseInt\<close> reads the digits before the point
  only, so \<open>v = 10 ^ 21\<close> is serialized as \<^verbatim>\<open>1e+21\<close> and comes back as \<open>1\<close>.
\<close>

theorem exponent_notation_counterexample:
  "CHR '','' \<notin> set ''0xaa'' \<and> CHR '','' \<notin> set ''0xbb'' \<and> isDouble 2 \<and> isDouble (10 ^ 21)
   \<and> serializeSignature \<lparr>signatureType = 2, r = ''0xaa'', s = ''0xbb'', v = 10 ^ 21\<rparr> = ''2,0xaa,0xbb,1e+21''
   \<and> deserializeSignature (serializeSignature \<lparr>signatureType = 2, r = ''0xaa'', s = ''0xbb'', v = 10 ^ 21\<rparr>)
       = Inr \<lparr>signatureType = 2, r = ''0xaa'', s = ''0xbb'', v = 1\<rparr>"
proof -
  have d: "isDouble 2" "isDouble (10 ^ 21)"
    using roundToDouble_ten_21 by (simp_all add: isDouble_def roundToDouble_def [of 2])
  have two: "number_toString 2 = ''2''"
    by (simp add: number_toString_def shortestDecimal_def decimal_small digitChar_def)
  have len: "length (decimal 1000000000000000000000) = 22"
    by (simp add: decimal_small decimal_large)
  have "nearestDecimals 1000000000000000000000 1 = [1000000000000000000000, 2 * 1000000000000000000000]"
    by (simp add: nearestDecimals_def len Let_def)
  moreover have "roundToDouble 1000000000000000000000 = Some 1000000000000000000000"
    using roundToDouble_ten_21 by simp
  ultimately have "shortestDecimal 1000000000000000000000 = 1000000000000000000000"
    by (simp add: shortestDecimal_def len upt_conv_Cons)
  then have big: "number_toString 1000000000000000000000 = ''1e+21''"
    by (simp add: number_toString_def exponential_def stripTrailingZeros_def decimal_small
        decimal_large digitChar_def Let_def)
  have ser: "serializeSignature \<lparr>signatureType = 2, r = ''0xaa'', s = ''0xbb'', v = 10 ^ 21\<rparr> = ''2,0xaa,0xbb,1e+21''"
    by (simp add: serializeSignature_def join_comma_def two big)
  have "deserializeSignature ''2,0xaa,0xbb,1e+21'' = Inr \<lparr>signatureType = 2, r = ''0xaa'', s = ''0xbb'', v = 1\<rparr>"
    by (simp add: deserializeSignature_def arrayItem_def parseInt10_def isWhiteSpace_def isDigit_def
        digitsValue_def roundToDouble_def Let_def)
  with ser d show ?thesis by simp
qed

end
